theory Spec2Isabelle
  imports Complex_Main "HOL-Library.Word"
begin

section \<open>Values of the host language\<close>

text \<open>
  A JavaScript string is a sequence of UTF-16 code units. A code unit is modelled as a
  natural number (no function below does arithmetic on one, so its 16-bit bound never
  matters); \<open>js\<close> turns an ASCII literal of this file into such a sequence.
  An \<open>ArrayBuffer\<close> (and the \<open>Uint8Array\<close> over it) is a list of bytes.
\<close>

type_synonym jsstring = "nat list"
type_synonym byte = "8 word"
type_synonym ArrayBuffer = "byte list"

definition js :: "string \<Rightarrow> jsstring" where
  "js s = map of_char s"

text \<open>\<open>String.prototype.includes\<close>: the needle occurs at some offset of the string.\<close>

fun str_includes :: "jsstring \<Rightarrow> jsstring \<Rightarrow> bool" where
  "str_includes [] needle = (needle = [])"
| "str_includes (c # cs) needle =
     (take (length needle) (c # cs) = needle \<or> str_includes cs needle)"

text \<open>What the modelled code can throw.\<close>

datatype error =
    PDFEncryptedError
  | PDFCorruptedError
  | UnknownProvider
  | InvalidCharacterError
  | TypeError
  | HostError

text \<open>
  \<open>String.prototype.trim\<close> removes white space and line terminators at both ends; the
  regular-expression class \<open>\s\<close> is the same set of code units.
\<close>

definition isLineTerminator :: "nat \<Rightarrow> bool" where
  "isLineTerminator c = (c = 10 \<or> c = 13 \<or> c = 8232 \<or> c = 8233)"

definition isWhiteSpace :: "nat \<Rightarrow> bool" where
  "isWhiteSpace c =
     (c = 9 \<or> c = 10 \<or> c = 11 \<or> c = 12 \<or> c = 13 \<or> c = 32 \<or> c = 160 \<or> c = 5760
      \<or> (8192 \<le> c \<and> c \<le> 8202) \<or> c = 8232 \<or> c = 8233 \<or> c = 8239 \<or> c = 8287
      \<or> c = 12288 \<or> c = 65279)"

definition trim :: "jsstring \<Rightarrow> jsstring" where
  "trim s = rev (dropWhile isWhiteSpace (rev (dropWhile isWhiteSpace s)))"

text \<open>
  \<open>s.split(sep)[0]\<close> for a one-character separator: the text before its first occurrence.
  \<open>s.split(sep).pop()\<close>, equally \<open>parts[parts.length - 1]\<close>: the text after its last
  occurrence (all of \<open>s\<close> when there is none).
\<close>

definition splitFirst :: "nat \<Rightarrow> jsstring \<Rightarrow> jsstring" where
  "splitFirst sep s = takeWhile (\<lambda>c. c \<noteq> sep) s"

definition splitLast :: "nat \<Rightarrow> jsstring \<Rightarrow> jsstring" where
  "splitLast sep s = rev (takeWhile (\<lambda>c. c \<noteq> sep) (rev s))"

text \<open>
  \<open>String.prototype.toLowerCase\<close> on the ASCII letters. (Outside ASCII the standard's
  mapping produces none of the extensions \<open>getImageMimeType\<close> compares with, so those code
  units are left as they are.)
\<close>

definition toLowerCase :: "jsstring \<Rightarrow> jsstring" where
  "toLowerCase s = map (\<lambda>c. if 65 \<le> c \<and> c \<le> 90 then c + 32 else c) s"

section \<open>Regular expressions\<close>

text \<open>
  The regular-expression literals of the source are kept as terms of \<open>regex\<close> and run by a
  backtracking matcher with the priorities of ECMAScript: \<open>ends r st\<close> lists, in the
  order in which backtracking tries them, the states in which a match of \<open>r\<close> begun in
  state \<open>st\<close> can end. A state is the index reached, the input still to read, and the
  captures made so far. The constructs are those the source uses: literal characters,
  the classes \<open>.\<close>, \<open>[\s\S]\<close>, \<open>\s\<close>, \<open>[...]\<close> and \<open>[^...]\<close>, sequence, alternation,
  the greedy and the lazy star, capturing groups (none of them under a star), and the
  anchors \<open>^\<close> and \<open>$\<close> without the multiline flag.
\<close>

datatype cclass = AnyExceptNewline | AnyChar | WhiteSpace | OneOf "nat list" | NoneOf "nat list"

fun inClass :: "cclass \<Rightarrow> nat \<Rightarrow> bool" where
  "inClass AnyExceptNewline c = (\<not> isLineTerminator c)"
| "inClass AnyChar c = True"
| "inClass WhiteSpace c = isWhiteSpace c"
| "inClass (OneOf cs) c = (c \<in> set cs)"
| "inClass (NoneOf cs) c = (c \<notin> set cs)"

datatype regex =
    Eps
  | Chr nat
  | Class cclass
  | Seq regex regex
  | Alt regex regex
  | Star regex
  | LazyStar regex
  | Group nat regex
  | Bol
  | Eol

text \<open>
  The \<open>i\<close> flag compares canonicalized code units. Without the \<open>u\<close> flag the standard
  canonicalizes with \<open>toUpperCase\<close> and never maps a code unit from 128 up to one below
  128; identity stands for the mapping above ASCII, which decides every comparison with
  the ASCII characters of the source's patterns as the standard does.
\<close>

definition canonicalize :: "nat \<Rightarrow> nat" where
  "canonicalize c = (if 97 \<le> c \<and> c \<le> 122 then c - 32 else c)"

definition charMatches :: "bool \<Rightarrow> nat \<Rightarrow> nat \<Rightarrow> bool" where
  "charMatches ignoreCase p c =
     (if ignoreCase then canonicalize p = canonicalize c else p = c)"

type_synonym mstate = "nat \<times> jsstring \<times> (nat \<times> jsstring) list"

text \<open>
  An iteration of a star that consumes nothing is rejected, as the standard's
  \<open>RepeatMatcher\<close> does; this is also what makes the matcher total.
\<close>

function (sequential) ends :: "bool \<Rightarrow> regex \<Rightarrow> mstate \<Rightarrow> mstate list" where
  "ends ic Eps st = [st]"
| "ends ic (Chr p) (i, [], cs) = []"
| "ends ic (Chr p) (i, c # r, cs) = (if charMatches ic p c then [(Suc i, r, cs)] else [])"
| "ends ic (Class k) (i, [], cs) = []"
| "ends ic (Class k) (i, c # r, cs) = (if inClass k c then [(Suc i, r, cs)] else [])"
| "ends ic (Seq a b) st = concat (map (ends ic b) (ends ic a st))"
| "ends ic (Alt a b) st = ends ic a st @ ends ic b st"
| "ends ic (Star a) st =
     concat (map (\<lambda>st'. if length (fst (snd st')) < length (fst (snd st))
                          then ends ic (Star a) st' else [])
                 (ends ic a st)) @ [st]"
| "ends ic (LazyStar a) st =
     st # concat (map (\<lambda>st'. if length (fst (snd st')) < length (fst (snd st))
                               then ends ic (LazyStar a) st' else [])
                      (ends ic a st))"
| "ends ic (Group k a) (i, r, cs) =
     map (\<lambda>(i', r', cs'). (i', r', (k, take (i' - i) r) # cs')) (ends ic a (i, r, cs))"
| "ends ic Bol (i, r, cs) = (if i = 0 then [(i, r, cs)] else [])"
| "ends ic Eol (i, r, cs) = (if r = [] then [(i, r, cs)] else [])"
  by pat_completeness auto
termination
  by (relation "inv_image (less_than <*lex*> less_than)
        (\<lambda>(ic, r, st). (size r, length (fst (snd st))))") auto

declare ends.simps(8) [simp del] ends.simps(9) [simp del]

text \<open>Sugar for writing the literals: a run of characters, \<open>r+?\<close>, \<open>r?\<close>.\<close>

definition lit :: "string \<Rightarrow> regex" where
  "lit w = foldr (\<lambda>c r. Seq (Chr c) r) (js w) Eps"

definition lazyPlus :: "regex \<Rightarrow> regex" where
  "lazyPlus r = Seq r (LazyStar r)"

definition opt :: "regex \<Rightarrow> regex" where
  "opt r = Alt r Eps"

text \<open>
  Two notions for reasoning about the matcher: a run of pattern characters matches at the
  front of the input, and a pattern can end exactly at the end of the input.
\<close>

definition matchesAt :: "bool \<Rightarrow> jsstring \<Rightarrow> jsstring \<Rightarrow> bool" where
  "matchesAt ic w r = (length w \<le> length r \<and> list_all2 (charMatches ic) w (take (length w) r))"

definition finishes :: "bool \<Rightarrow> regex \<Rightarrow> mstate \<Rightarrow> bool" where
  "finishes ic a st = list_ex (\<lambda>st'. fst (snd st') = []) (ends ic a st)"

text \<open>
  A match object: \<open>index\<close>, the matched text \<open>m[0]\<close>, the index after the match, and the
  captures. \<open>capture m k\<close> is \<open>m[k]\<close>; every pattern of the source that reads \<open>m[1]\<close> has
  its group 1 take part in every match, so the undefined case does not arise.
\<close>

record RegExpMatch =
  index :: nat
  matched :: jsstring
  endIndex :: nat
  captures :: "(nat \<times> jsstring) list"

definition capture :: "RegExpMatch \<Rightarrow> nat \<Rightarrow> jsstring" where
  "capture m k = (case map_of (captures m) k of Some t \<Rightarrow> t | None \<Rightarrow> [])"

text \<open>
  \<open>RegExpBuiltinExec\<close>: the match is tried at \<open>lastIndex\<close>, then at each later index up
  to the length of the string; the first index with a match wins, with the first end
  that backtracking finds there.
\<close>

function regexExec :: "bool \<Rightarrow> regex \<Rightarrow> jsstring \<Rightarrow> nat \<Rightarrow> RegExpMatch option" where
  "regexExec ic r s lastIndex =
     (if length s < lastIndex then None
      else (case ends ic r (lastIndex, drop lastIndex s, []) of
              [] \<Rightarrow> regexExec ic r s (Suc lastIndex)
            | (e, rest, cs) # _ \<Rightarrow>
                Some \<lparr>index = lastIndex, matched = take (e - lastIndex) (drop lastIndex s),
                      endIndex = e, captures = cs\<rparr>))"
  by pat_completeness auto
termination
  by (relation "measure (\<lambda>(ic, r, s, lastIndex). Suc (length s) - lastIndex)") auto

declare regexExec.simps [simp del]

text \<open>\<open>regex.test(s)\<close> and \<open>s.match(regex)\<close> for a pattern without the \<open>g\<close> flag.\<close>

definition regexTest :: "bool \<Rightarrow> regex \<Rightarrow> jsstring \<Rightarrow> bool" where
  "regexTest ic r s = (regexExec ic r s 0 \<noteq> None)"

definition regexMatch :: "bool \<Rightarrow> regex \<Rightarrow> jsstring \<Rightarrow> RegExpMatch option" where
  "regexMatch ic r s = regexExec ic r s 0"

text \<open>
  \<open>s.replace(regex, "")\<close> for a pattern without the \<open>g\<close> flag: the first match is cut out.
\<close>

definition replaceFirstWithEmpty :: "bool \<Rightarrow> regex \<Rightarrow> jsstring \<Rightarrow> jsstring" where
  "replaceFirstWithEmpty ic r s =
     (case regexExec ic r s 0 of
        None \<Rightarrow> s
      | Some m \<Rightarrow> take (index m) s @ drop (endIndex m) s)"

text \<open>
  \<open>s.matchAll(regex)\<close> for a pattern with the \<open>g\<close> flag: the matches found by repeated
  \<open>exec\<close>, each search starting where the previous match ended (one further after an
  empty match).
\<close>

function regexMatchAll :: "bool \<Rightarrow> regex \<Rightarrow> jsstring \<Rightarrow> nat \<Rightarrow> RegExpMatch list" where
  "regexMatchAll ic r s lastIndex =
     (case regexExec ic r s lastIndex of
        None \<Rightarrow> []
      | Some m \<Rightarrow>
          m # regexMatchAll ic r s
                (if endIndex m = index m then Suc (endIndex m) else endIndex m))"
  by pat_completeness auto

section \<open>Base64 (the platform's \<open>btoa\<close> and \<open>atob\<close>)\<close>

text \<open>
  The alphabet of RFC 4648: \<open>A-Z\<close>, \<open>a-z\<close>, \<open>0-9\<close>, \<open>+\<close>, \<open>/\<close> for the values 0 to 63,
  written by ranges.
\<close>

definition b64char :: "nat \<Rightarrow> nat" where
  "b64char n =
     (if n < 26 then 65 + n
      else if n < 52 then 97 + (n - 26)
      else if n < 62 then 48 + (n - 52)
      else if n = 62 then 43 else 47)"

definition b64index :: "nat \<Rightarrow> nat option" where
  "b64index c =
     (if 65 \<le> c \<and> c \<le> 90 then Some (c - 65)
      else if 97 \<le> c \<and> c \<le> 122 then Some (c - 97 + 26)
      else if 48 \<le> c \<and> c \<le> 57 then Some (c - 48 + 52)
      else if c = 43 then Some 62
      else if c = 47 then Some 63
      else None)"

text \<open>Three bytes give four characters; one or two bytes left over are padded with \<open>=\<close>.\<close>

fun encodeGroups :: "nat list \<Rightarrow> jsstring" where
  "encodeGroups [] = []"
| "encodeGroups [a] = [b64char (a div 4), b64char ((a mod 4) * 16), 61, 61]"
| "encodeGroups [a, b] =
     [b64char (a div 4), b64char ((a mod 4) * 16 + b div 16), b64char ((b mod 16) * 4), 61]"
| "encodeGroups (a # b # c # rest) =
     [b64char (a div 4), b64char ((a mod 4) * 16 + b div 16),
      b64char ((b mod 16) * 4 + c div 64), b64char (c mod 64)] @ encodeGroups rest"

text \<open>
  The same encoding in two parts, for the proofs: the six-bit values of the groups, and
  the number of \<open>=\<close> that pad them.
\<close>

fun sixes :: "nat list \<Rightarrow> nat list" where
  "sixes [] = []"
| "sixes [a] = [a div 4, (a mod 4) * 16]"
| "sixes [a, b] = [a div 4, (a mod 4) * 16 + b div 16, (b mod 16) * 4]"
| "sixes (a # b # c # rest) =
     [a div 4, (a mod 4) * 16 + b div 16, (b mod 16) * 4 + c div 64, c mod 64] @ sixes rest"

definition padCount :: "nat list \<Rightarrow> nat" where
  "padCount bs = (3 - length bs mod 3) mod 3"

text \<open>\<open>btoa\<close> throws on a code unit above 255.\<close>

definition btoa :: "jsstring \<Rightarrow> error + jsstring" where
  "btoa s = (if list_ex (\<lambda>c. 255 < c) s then Inl InvalidCharacterError
             else Inr (encodeGroups s))"

text \<open>
  \<open>atob\<close> is the forgiving-base64 decode of the Infra standard: ASCII white space is
  removed; when the length is a multiple of four, one or two trailing \<open>=\<close> are removed;
  a length of 1 modulo 4, or a character outside the alphabet, is an error; every four
  characters give three bytes, and a remainder of two or three gives one or two.
\<close>

definition isAsciiWhitespace :: "nat \<Rightarrow> bool" where
  "isAsciiWhitespace c = (c = 9 \<or> c = 10 \<or> c = 12 \<or> c = 13 \<or> c = 32)"

definition stripPadding :: "jsstring \<Rightarrow> jsstring" where
  "stripPadding d =
     (if 2 \<le> length d \<and> drop (length d - 2) d = [61, 61] then take (length d - 2) d
      else if 1 \<le> length d \<and> drop (length d - 1) d = [61] then take (length d - 1) d
      else d)"

fun sextets :: "jsstring \<Rightarrow> nat list option" where
  "sextets [] = Some []"
| "sextets (c # cs) =
     (case b64index c of
        None \<Rightarrow> None
      | Some n \<Rightarrow> (case sextets cs of None \<Rightarrow> None | Some ns \<Rightarrow> Some (n # ns)))"

fun decodeGroups :: "nat list \<Rightarrow> nat list" where
  "decodeGroups (s0 # s1 # s2 # s3 # rest) =
     [s0 * 4 + s1 div 16, (s1 mod 16) * 16 + s2 div 4, (s2 mod 4) * 64 + s3]
       @ decodeGroups rest"
| "decodeGroups [s0, s1, s2] = [s0 * 4 + s1 div 16, (s1 mod 16) * 16 + s2 div 4]"
| "decodeGroups [s0, s1] = [s0 * 4 + s1 div 16]"
| "decodeGroups _ = []"

definition atob :: "jsstring \<Rightarrow> error + jsstring" where
  "atob data =
     (let d1 = filter (\<lambda>c. \<not> isAsciiWhitespace c) data;
          d2 = (if length d1 mod 4 = 0 then stripPadding d1 else d1)
      in if length d2 mod 4 = 1 then Inl InvalidCharacterError
         else (case sextets d2 of
                 None \<Rightarrow> Inl InvalidCharacterError
               | Some ns \<Rightarrow> Inr (decodeGroups ns)))"

text \<open>
  \<open>arrayBufferToBase64\<close> (utils/image.ts): the \<open>reduce\<close> builds the binary string, one
  code unit \<open>String.fromCharCode(byte)\<close> for each byte, and \<open>btoa\<close> encodes it. A byte is
  never above 255, so the \<open>btoa\<close> here cannot throw (lemma \<open>btoa_binary\<close> below) and the
  function is written with the encoding it returns.
\<close>

definition binaryString :: "ArrayBuffer \<Rightarrow> jsstring" where
  "binaryString buffer = map unat buffer"

definition arrayBufferToBase64 :: "ArrayBuffer \<Rightarrow> jsstring" where
  "arrayBufferToBase64 buffer = encodeGroups (binaryString buffer)"

text \<open>
  The decoding \<open>saveBase64ImageToVault\<close> applies to stored base64:
  \<open>atob\<close>, then \<open>bytes[i] = binary.charCodeAt(i)\<close> into a \<open>Uint8Array\<close>.
\<close>

definition base64ToBytes :: "jsstring \<Rightarrow> error + ArrayBuffer" where
  "base64ToBytes b64 =
     (case atob b64 of Inl e \<Rightarrow> Inl e | Inr binary \<Rightarrow> Inr (map of_nat binary))"

text \<open>
  The test by which \<open>saveBase64ImageToVault\<close> recognises a data-URL prefix
  ("Remove data URL prefix if present"): \<open>base64.includes(';base64,')\<close>.
\<close>

definition hasDataUrlPrefix :: "jsstring \<Rightarrow> bool" where
  "hasDataUrlPrefix b64 = str_includes b64 (js '';base64,'')"

text \<open>
  "The string carries a data-URL prefix", in the words of the specification: a data URL
  is \<open>data:\<close>, a media type with its parameters (which may be empty), a comma, and the
  data. So the string begins with \<open>data:\<close> and has the comma that ends the prefix. The
  shortest one is \<open>data:,\<close>, whose data are empty.
\<close>

definition carriesDataUrlPrefix :: "jsstring \<Rightarrow> bool" where
  "carriesDataUrlPrefix s = (take 5 s = js ''data:'' \<and> List.member s 44)"

section \<open>PDF rasterizer (src/utils/pdf.ts)\<close>

text \<open>
  \<open>interface PDFPageImage\<close>. Width and height are the viewport's, already rounded by
  \<open>Math.round\<close>.
\<close>

record PDFPageImage =
  pageNumber :: int
  base64 :: jsstring
  width :: int
  height :: int

text \<open>
  What one iteration of the page loop can meet. \<open>PageThrows\<close>: any of
  \<open>pdf.getPage\<close>, \<open>page.getViewport\<close>, \<open>page.render\<close>, \<open>canvas.toDataURL\<close> throws
  and the \<open>catch\<close> of the loop body logs it. \<open>NoCanvasContext\<close>:
  \<open>canvas.getContext("2d")\<close> is null and the body does \<open>continue\<close>. \<open>Rendered png w h\<close>:
  the page is drawn; \<open>png\<close> is the PNG encoding of the canvas (\<open>None\<close> for a canvas
  without pixels) and \<open>w\<close>, \<open>h\<close> are the rounded viewport sizes.
\<close>

datatype page_outcome = PageThrows | NoCanvasContext | Rendered "ArrayBuffer option" int int

text \<open>
  \<open>canvas.toDataURL("image/png")\<close> as the HTML standard defines it: the string
  \<open>data:,\<close> for a canvas without pixels, otherwise the PNG file as a base64 data URL.
\<close>

definition pngDataUrlPrefix :: jsstring where
  "pngDataUrlPrefix = js ''data:image/png;base64,''"

definition toDataURL :: "ArrayBuffer option \<Rightarrow> jsstring" where
  "toDataURL png =
     (case png of None \<Rightarrow> js ''data:,''
      | Some bytes \<Rightarrow> pngDataUrlPrefix @ arrayBufferToBase64 bytes)"

text \<open>
  The document proxy of pdf.js, an external collaborator: its page count and what
  rendering page \<open>n\<close> at a scale gives.
\<close>

record PDFDocumentProxy =
  numPages :: nat
  renderPage :: "int \<Rightarrow> rat \<Rightarrow> page_outcome"

text \<open>
  \<open>pdfjsLib.getDocument({ data: buffer }).promise\<close>: it resolves to a document or is
  rejected; \<open>LoadRejected isError message\<close> records whether the rejection value is an
  \<open>Error\<close> (\<open>err instanceof Error\<close>) and, when it is, its \<open>err.message\<close>.
\<close>

datatype load_outcome = LoadRejected bool jsstring | Loaded PDFDocumentProxy

text \<open>The pattern \<open>/^data:image\/png;base64,/\<close> of \<open>dataUrl.replace(..., "")\<close>.\<close>

definition pngPrefixPattern :: regex where
  "pngPrefixPattern = Seq Bol (lit ''data:image/png;base64,'')"

text \<open>
  The \<open>for (let pageNum = 1; pageNum <= pagesToProcess; pageNum++)\<close> loop of
  \<open>convertPdfToImages\<close>, with \<open>images\<close> as the accumulator that \<open>images.push\<close> extends.
\<close>

function renderPages ::
  "PDFDocumentProxy \<Rightarrow> rat \<Rightarrow> int \<Rightarrow> int \<Rightarrow> PDFPageImage list \<Rightarrow> PDFPageImage list"
where
  "renderPages pdf scale pagesToProcess pageNum images =
     (if pageNum \<le> pagesToProcess then
        (case renderPage pdf pageNum scale of
           PageThrows \<Rightarrow> renderPages pdf scale pagesToProcess (pageNum + 1) images
         | NoCanvasContext \<Rightarrow> renderPages pdf scale pagesToProcess (pageNum + 1) images
         | Rendered png w h \<Rightarrow>
             (let dataUrl = toDataURL png;
                  b64 = replaceFirstWithEmpty False pngPrefixPattern dataUrl
              in renderPages pdf scale pagesToProcess (pageNum + 1)
                   (images @ [\<lparr>pageNumber = pageNum, base64 = b64,
                               width = w, height = h\<rparr>])))
      else images)"
  by pat_completeness auto
termination
  by (relation "measure (\<lambda>(pdf, scale, pagesToProcess, pageNum, images).
        nat (pagesToProcess + 1 - pageNum))") auto

declare renderPages.simps [simp del]

text \<open>
  \<open>convertPdfToImages(buffer, scale, maxPages)\<close>. The loader is the parameter
  \<open>getDocument\<close>. A rejected load throws \<open>PDFEncryptedError\<close> when
  \<open>err instanceof Error && err.message.includes("password")\<close>, and
  \<open>PDFCorruptedError\<close> otherwise.
\<close>

definition convertPdfToImages ::
  "(ArrayBuffer \<Rightarrow> load_outcome) \<Rightarrow> ArrayBuffer \<Rightarrow> rat \<Rightarrow> int \<Rightarrow> error + PDFPageImage list"
where
  "convertPdfToImages getDocument buffer scale maxPages =
     (case getDocument buffer of
        LoadRejected isError message \<Rightarrow>
          (if isError \<and> str_includes message (js ''password'')
           then Inl PDFEncryptedError else Inl PDFCorruptedError)
      | Loaded pdf \<Rightarrow>
          (let totalPages = int (numPages pdf);
               pagesToProcess = min totalPages maxPages
           in Inr (renderPages pdf scale pagesToProcess 1 [])))"

text \<open>The predicate "page \<open>n\<close> of the document renders at this scale".\<close>

definition pageRenders :: "PDFDocumentProxy \<Rightarrow> rat \<Rightarrow> int \<Rightarrow> bool" where
  "pageRenders pdf scale n =
     (case renderPage pdf n scale of Rendered png w h \<Rightarrow> True | _ \<Rightarrow> False)"

text \<open>
  A document for the examples: three pages, of which the second fails to render,
  and a loader that opens it for every buffer.
\<close>

definition exampleDocument :: PDFDocumentProxy where
  "exampleDocument =
     \<lparr>numPages = 3,
      renderPage = (\<lambda>n scale. if n = 2 then PageThrows else Rendered (Some [1, 2, 3]) 100 200)\<rparr>"

definition exampleGetDocument :: "ArrayBuffer \<Rightarrow> load_outcome" where
  "exampleGetDocument buffer = Loaded exampleDocument"

text \<open>
  A document of one page whose viewport, at the scale, is smaller than one pixel: the
  canvas gets the width and height 0, so it has no pixels, and \<open>Math.round\<close> gives 0
  for both sizes.
\<close>

definition emptyCanvasDocument :: PDFDocumentProxy where
  "emptyCanvasDocument = \<lparr>numPages = 1, renderPage = (\<lambda>n scale. Rendered None 0 0)\<rparr>"

definition emptyCanvasGetDocument :: "ArrayBuffer \<Rightarrow> load_outcome" where
  "emptyCanvasGetDocument buffer = Loaded emptyCanvasDocument"

section \<open>Embed locator (src/utils/embed.ts)\<close>

text \<open>The result of \<open>findRelevantImageEmbed\<close>.\<close>

datatype embed_type = Internal | External

record EmbedMatch =
  link :: jsstring
  isExternal :: bool
  embedType :: embed_type
  embedText :: jsstring

text \<open>
  \<open>imageExt = /\.(png|jpe?g|gif|webp|bmp|svg|pdf)$/i\<close>, and
  \<open>isImage = (link) => imageExt.test(link)\<close>.
\<close>

definition imageExt :: regex where
  "imageExt =
     Seq (lit ''.'')
       (Seq (Group 1
               (Alt (lit ''png'')
               (Alt (Seq (lit ''jp'') (Seq (opt (lit ''e'')) (lit ''g'')))
               (Alt (lit ''gif'')
               (Alt (lit ''webp'')
               (Alt (lit ''bmp'')
               (Alt (lit ''svg'') (lit ''pdf''))))))))
            Eol)"

definition isImage :: "jsstring \<Rightarrow> bool" where
  "isImage l = regexTest True imageExt l"

text \<open>
  The patterns \<open>/!\[\[(.+?)\]\]/\<close>, \<open>/!\[.*?\]\((.+?)\)/\<close> and \<open>/^https?:\/\//i\<close>.
\<close>

definition wikiEmbedPattern :: regex where
  "wikiEmbedPattern =
     Seq (lit ''![['')
       (Seq (Group 1 (lazyPlus (Class AnyExceptNewline))) (lit '']]''))"

definition markdownEmbedPattern :: regex where
  "markdownEmbedPattern =
     Seq (lit ''!['')
       (Seq (LazyStar (Class AnyExceptNewline))
       (Seq (lit '']('')
       (Seq (Group 1 (lazyPlus (Class AnyExceptNewline))) (lit '')''))))"

definition httpPattern :: regex where
  "httpPattern = Seq Bol (Seq (lit ''http'') (Seq (opt (lit ''s'')) (lit ''://'')))"

text \<open>
  The two checks that \<open>findRelevantImageEmbed\<close> applies, first to the selection and
  then to each line: the wiki embed, whose link is \<open>match[1].split("|")[0].trim()\<close>, and
  the markdown embed, whose link is \<open>match[1].split(" ")[0].replace(/["']/g, "")\<close> (the
  global replacement of a one-character class by nothing is a filter). A match whose
  link is not an image falls through to the next check.
\<close>

definition wikiEmbedIn :: "jsstring \<Rightarrow> EmbedMatch option" where
  "wikiEmbedIn text =
     (case regexMatch False wikiEmbedPattern text of
        None \<Rightarrow> None
      | Some m \<Rightarrow>
          (let l = trim (splitFirst 124 (capture m 1))
           in if isImage l
              then Some \<lparr>link = l, isExternal = False, embedType = Internal,
                         embedText = matched m\<rparr>
              else None))"

definition markdownEmbedIn :: "jsstring \<Rightarrow> EmbedMatch option" where
  "markdownEmbedIn text =
     (case regexMatch False markdownEmbedPattern text of
        None \<Rightarrow> None
      | Some m \<Rightarrow>
          (let l = filter (\<lambda>c. c \<noteq> 34 \<and> c \<noteq> 39) (splitFirst 32 (capture m 1))
           in if isImage l
              then Some \<lparr>link = l, isExternal = regexTest True httpPattern l,
                         embedType = External, embedText = matched m\<rparr>
              else None))"

definition embedIn :: "jsstring \<Rightarrow> EmbedMatch option" where
  "embedIn text =
     (case wikiEmbedIn text of Some e \<Rightarrow> Some e | None \<Rightarrow> markdownEmbedIn text)"

text \<open>
  The editor, as far as the locator reads it: the selection, the cursor's line and the
  text of each line.
\<close>

record Editor =
  getSelection :: jsstring
  cursorLine :: nat
  getLine :: "nat \<Rightarrow> jsstring"

text \<open>The loop \<open>for (let i = editor.getCursor().line; i >= 0; i--)\<close>.\<close>

fun scanLines :: "(nat \<Rightarrow> jsstring) \<Rightarrow> nat \<Rightarrow> EmbedMatch option" where
  "scanLines line 0 = embedIn (line 0)"
| "scanLines line (Suc i) =
     (case embedIn (line (Suc i)) of Some e \<Rightarrow> Some e | None \<Rightarrow> scanLines line i)"

definition findRelevantImageEmbed :: "Editor \<Rightarrow> EmbedMatch option" where
  "findRelevantImageEmbed editor =
     (case embedIn (getSelection editor) of
        Some e \<Rightarrow> Some e
      | None \<Rightarrow> scanLines (getLine editor) (cursorLine editor))"

text \<open>
  The extension of a link in the words of the specification: the text after the last
  dot, when there is a dot; and the specification's set of image extensions.
\<close>

definition extensionOf :: "jsstring \<Rightarrow> jsstring option" where
  "extensionOf l =
     (if List.member l 46 then Some (splitLast 46 l) else None)"

definition imageExtensions :: "jsstring list" where
  "imageExtensions = map js [''png'', ''jpg'', ''jpeg'', ''gif'', ''webp'', ''bmp'', ''svg'', ''pdf'']"

definition hasImageExtension :: "jsstring \<Rightarrow> bool" where
  "hasImageExtension l =
     (case extensionOf l of
        None \<Rightarrow> False
      | Some ext \<Rightarrow> List.member imageExtensions (toLowerCase ext))"

text \<open>
  "The name ends with this extension, case-insensitively", in the words of the
  specification: the suffix is given in lower case, and the last characters of the
  name, lowered, are that suffix. \<open>notUpper\<close> says a pattern character is no capital.
\<close>

definition endsWithIgnoringCase :: "jsstring \<Rightarrow> jsstring \<Rightarrow> bool" where
  "endsWithIgnoringCase s suffix =
     (length suffix \<le> length s \<and> toLowerCase (drop (length s - length suffix) s) = suffix)"

definition notUpper :: "nat \<Rightarrow> bool" where
  "notUpper p = (\<not> (65 \<le> p \<and> p \<le> 90))"

section \<open>Payload preparer (utils/image.ts, in the listing of src/utils/pdf.ts)\<close>

record TFile =
  path :: jsstring
  name :: jsstring

record CollectedImage =
  source :: jsstring
  file' :: "TFile option"
  isExternal :: bool

record PreparedImage =
  name :: jsstring
  base64 :: jsstring
  mime :: jsstring
  size' :: nat
  width :: "int option"
  height :: "int option"
  source :: jsstring

text \<open>\<open>getImageMimeType\<close>: a switch on \<open>fileName.split(".").pop()?.toLowerCase()\<close>.\<close>

definition getImageMimeType :: "jsstring \<Rightarrow> jsstring" where
  "getImageMimeType fileName =
     (let ext = toLowerCase (splitLast 46 fileName)
      in if ext = js ''png'' then js ''image/png''
         else if ext = js ''jpg'' \<or> ext = js ''jpeg'' then js ''image/jpeg''
         else if ext = js ''webp'' then js ''image/webp''
         else if ext = js ''gif'' then js ''image/gif''
         else if ext = js ''bmp'' then js ''image/bmp''
         else if ext = js ''svg'' then js ''image/svg+xml''
         else if ext = js ''pdf'' then js ''application/pdf''
         else js ''application/octet-stream'')"

text \<open>\<open>isPdfFile\<close>: \<open>/\.pdf$/i.test(fileName)\<close>.\<close>

definition pdfExt :: regex where
  "pdfExt = Seq (lit ''.pdf'') Eol"

definition isPdfFile :: "jsstring \<Rightarrow> bool" where
  "isPdfFile fileName = regexTest True pdfExt fileName"

text \<open>
  \<open>isPdfBuffer\<close> (src/utils/pdf.ts): the first five bytes (fewer when the buffer is
  shorter), as a string, equal \<open>%PDF-\<close>.
\<close>

definition isPdfBuffer :: "ArrayBuffer \<Rightarrow> bool" where
  "isPdfBuffer buffer = (binaryString (take 5 buffer) = js ''%PDF-'')"

text \<open>
  The collaborators of the payload preparer: \<open>requestUrl\<close> (its status and body, or a
  throw), \<open>vault.readBinary\<close>, the image-decode probe behind
  \<open>getImageDimensionsFromArrayBuffer\<close> (which resolves to null on a decode error and
  never rejects), and the built-in \<open>decodeURIComponent\<close> (which throws on a malformed
  escape).
\<close>

record vault =
  requestUrl :: "jsstring \<Rightarrow> error + (int \<times> ArrayBuffer option)"
  readBinary :: "TFile \<Rightarrow> error + ArrayBuffer"
  getImageDimensionsFromArrayBuffer :: "ArrayBuffer \<Rightarrow> (int \<times> int) option"
  decodeURIComponent :: "jsstring \<Rightarrow> error + jsstring"

text \<open>
  \<open>fetchExternalImageAsArrayBuffer\<close>: a throw of \<open>requestUrl\<close>, a status other than 200
  and a missing body all end in the \<open>catch\<close>, which returns null.
\<close>

definition fetchExternalImageAsArrayBuffer :: "vault \<Rightarrow> jsstring \<Rightarrow> ArrayBuffer option" where
  "fetchExternalImageAsArrayBuffer v url =
     (case requestUrl v url of
        Inl e \<Rightarrow> None
      | Inr (status, body) \<Rightarrow> (if status \<noteq> 200 \<or> body = None then None else body))"

text \<open>
  The body of the \<open>try\<close> in \<open>prepareImagePayload\<close>; \<open>Inl\<close> is an exception raised inside
  it. \<open>preparedFrom\<close> is its common tail, from \<open>arrayBufferToBase64\<close> to the result.
\<close>

definition preparedFrom :: "vault \<Rightarrow> CollectedImage \<Rightarrow> ArrayBuffer \<Rightarrow> jsstring \<Rightarrow> PreparedImage" where
  "preparedFrom v img arrayBuffer fileName =
     (let b64 = arrayBufferToBase64 arrayBuffer;
          dims = getImageDimensionsFromArrayBuffer v arrayBuffer
      in \<lparr>PreparedImage.name = fileName,
          PreparedImage.base64 = b64,
          PreparedImage.mime = getImageMimeType fileName,
          PreparedImage.size' = length arrayBuffer,
          PreparedImage.width = map_option fst dims,
          PreparedImage.height = map_option snd dims,
          PreparedImage.source = CollectedImage.source img\<rparr>)"

definition prepareImagePayloadTry :: "vault \<Rightarrow> CollectedImage \<Rightarrow> error + PreparedImage option" where
  "prepareImagePayloadTry v img =
     (if CollectedImage.isExternal img then
        (case fetchExternalImageAsArrayBuffer v (CollectedImage.source img) of
           None \<Rightarrow> Inr None
         | Some arrayBuffer \<Rightarrow>
             (case decodeURIComponent v (splitLast 47 (CollectedImage.source img)) of
                Inl e \<Rightarrow> Inl e
              | Inr decoded \<Rightarrow>
                  Inr (Some (preparedFrom v img arrayBuffer
                               (if decoded = [] then js ''image'' else decoded)))))
      else
        (case file' img of
           None \<Rightarrow> Inr None
         | Some f \<Rightarrow>
             (case readBinary v f of
                Inl e \<Rightarrow> Inl e
              | Inr arrayBuffer \<Rightarrow> Inr (Some (preparedFrom v img arrayBuffer (TFile.name f))))))"

text \<open>
  \<open>prepareImagePayload\<close>: the \<open>catch\<close> around the body logs the exception and returns
  null.
\<close>

definition prepareImagePayload :: "vault \<Rightarrow> CollectedImage \<Rightarrow> error + PreparedImage option" where
  "prepareImagePayload v img =
     (case prepareImagePayloadTry v img of Inl e \<Rightarrow> Inr None | Inr result \<Rightarrow> Inr result)"

text \<open>
  The failures of the preparer: the fetch gives nothing, the name of the URL does not
  decode, the file handle is missing, or the read throws.
\<close>

definition preparationFails :: "vault \<Rightarrow> CollectedImage \<Rightarrow> bool" where
  "preparationFails v img =
     (if CollectedImage.isExternal img then
        (case fetchExternalImageAsArrayBuffer v (CollectedImage.source img) of
           None \<Rightarrow> True
         | Some arrayBuffer \<Rightarrow>
             (case decodeURIComponent v (splitLast 47 (CollectedImage.source img)) of
                Inl e \<Rightarrow> True | Inr decoded \<Rightarrow> False))
      else
        (case file' img of
           None \<Rightarrow> True
         | Some f \<Rightarrow> (case readBinary v f of Inl e \<Rightarrow> True | Inr arrayBuffer \<Rightarrow> False)))"

section \<open>Plugin commands (src/main.ts)\<close>

text \<open>
  The fields of \<open>GPTImageOCRSettings\<close> that the modelled code reads. \<open>loadSettings\<close>
  merges whatever the data file holds over the defaults, so \<open>provider\<close> is any string,
  and the two PDF numbers may be missing (\<open>None\<close>, where the code writes \<open>??\<close>).
\<close>

record GPTImageOCRSettings =
  provider :: jsstring
  openaiApiKey :: jsstring
  geminiApiKey :: jsstring
  ollamaUrl :: jsstring
  ollamaModel :: jsstring
  lmstudioUrl :: jsstring
  lmstudioModel :: jsstring
  customApiUrl :: jsstring
  customApiModel :: jsstring
  customApiKey :: jsstring
  customPrompt :: jsstring
  batchCustomPrompt :: jsstring
  pdfScale :: "rat option"
  pdfMaxPages :: "int option"

definition DEFAULT_PROMPT_TEXT :: jsstring where
  "DEFAULT_PROMPT_TEXT =
     js (''Extract only the raw text from this image. Do not add commentary or explanations. ''
         @ ''Do not prepend anything. Return only the transcribed text in markdown format. ''
         @ ''Do not put a markdown codeblock around the returned text.'')"

definition DEFAULT_BATCH_PROMPT_TEXT :: jsstring where
  "DEFAULT_BATCH_PROMPT_TEXT =
     js (''Extract only the raw text from each image. Do not add commentary or explanations. ''
         @ ''Do not prepend anything. Return only the transcribed text in markdown format for ''
         @ ''each image. Do not put a markdown codeblock around the returned text.'')"

text \<open>
  The provider classes are not in the listing; an instance is the tuple of arguments its
  constructor is called with. \<open>OpenAIProvider key model endpoint kind prompt name\<close> and
  \<open>GeminiProvider key model prompt name\<close>, where \<open>name\<close> is the entry of
  \<open>getFriendlyProviderNames(settings)\<close> (undefined when there is none).
\<close>

datatype OCRProvider =
    OpenAIProvider jsstring jsstring jsstring jsstring jsstring "jsstring option"
  | GeminiProvider jsstring jsstring jsstring "jsstring option"

text \<open>\<open>a || b\<close> on strings: the empty string is the falsy one.\<close>

definition orElse :: "jsstring \<Rightarrow> jsstring \<Rightarrow> jsstring" where
  "orElse a b = (if a = [] then b else a)"

text \<open>The pattern \<open>/\/$/\<close> of \<open>url.replace(/\/$/, "")\<close>.\<close>

definition trailingSlash :: regex where
  "trailingSlash = Seq (lit ''/'') Eol"

text \<open>
  The object literal \<open>factories\<close>, in the order written. Each entry is a closure that
  constructs a provider from the settings when called; the constructors being pure here,
  the table holds what each closure returns.
\<close>

definition factories ::
  "GPTImageOCRSettings \<Rightarrow> jsstring option \<Rightarrow> (jsstring \<times> OCRProvider) list"
where
  "factories st nm =
     (let prompt = orElse (trim (customPrompt st)) DEFAULT_PROMPT_TEXT;
          openAiFactory = (\<lambda>model.
            OpenAIProvider (openaiApiKey st) model
              (js ''https://api.openai.com/v1/chat/completions'') (js ''openai'') prompt nm)
      in [(js ''gemini'',
             GeminiProvider (geminiApiKey st) (js ''models/gemini-2.5-flash'') prompt nm),
          (js ''gemini-lite'',
             GeminiProvider (geminiApiKey st)
               (js ''models/gemini-2.5-flash-lite-preview-06-17'') prompt nm),
          (js ''gemini-pro'',
             GeminiProvider (geminiApiKey st) (js ''models/gemini-2.5-pro'') prompt nm),
          (js ''openai-mini'', openAiFactory (js ''gpt-4o-mini'')),
          (js ''openai'', openAiFactory (js ''gpt-4o'')),
          (js ''openai-4.1'', openAiFactory (js ''gpt-4.1'')),
          (js ''openai-4.1-mini'', openAiFactory (js ''gpt-4.1-mini'')),
          (js ''openai-4.1-nano'', openAiFactory (js ''gpt-4.1-nano'')),
          (js ''ollama'',
             OpenAIProvider [] (orElse (ollamaModel st) (js ''llama3.2-vision''))
               (orElse (replaceFirstWithEmpty False trailingSlash (ollamaUrl st))
                       (js ''http://localhost:11434''))
               (js ''ollama'') prompt nm),
          (js ''lmstudio'',
             OpenAIProvider [] (orElse (lmstudioModel st) (js ''gemma3''))
               (orElse (replaceFirstWithEmpty False trailingSlash (lmstudioUrl st))
                       (js ''http://localhost:1234''))
               (js ''lmstudio'') prompt nm),
          (js ''custom'',
             OpenAIProvider (orElse (customApiKey st) [])
               (orElse (customApiModel st) (js ''gpt-4''))
               (orElse (customApiUrl st) (js ''https://example.com/v1/chat/completions''))
               (js ''openai'') prompt nm)])"

text \<open>
  Property access \<open>obj[key]\<close> on an object literal. The literal's own properties come
  first; a key it does not have is looked up on \<open>Object.prototype\<close>, from which every
  object literal inherits, and only a key found in neither place gives \<open>undefined\<close>.
\<close>

definition objectPrototypeKeys :: "jsstring list" where
  "objectPrototypeKeys =
     map js [''constructor'', ''__defineGetter__'', ''__defineSetter__'', ''hasOwnProperty'',
             ''__lookupGetter__'', ''__lookupSetter__'', ''isPrototypeOf'',
             ''propertyIsEnumerable'', ''toString'', ''valueOf'', ''__proto__'',
             ''toLocaleString'']"

datatype 'a property = Undefined | OwnProperty 'a | InheritedProperty jsstring

definition getProperty :: "(jsstring \<times> 'a) list \<Rightarrow> jsstring \<Rightarrow> 'a property" where
  "getProperty obj key =
     (case map_of obj key of
        Some value \<Rightarrow> OwnProperty value
      | None \<Rightarrow> (if List.member objectPrototypeKeys key then InheritedProperty key
                 else Undefined))"

text \<open>
  \<open>getProvider\<close>: \<open>const factory = factories[provider]; if (!factory) throw new
  Error("Unknown provider"); return factory()\<close>. Every value inherited from
  \<open>Object.prototype\<close> is a function or an object, hence truthy: the guard lets it pass,
  and \<open>CallsInherited key\<close> stands for the evaluation of \<open>factory()\<close> on it (for
  \<open>constructor\<close> this is \<open>Object()\<close>, which returns a fresh empty object).
  \<open>callInherited\<close> below says what that evaluation gives.
\<close>

datatype provider_outcome = Throws error | Returns OCRProvider | CallsInherited jsstring

definition getProvider :: "GPTImageOCRSettings \<Rightarrow> jsstring option \<Rightarrow> provider_outcome" where
  "getProvider st nm =
     (case getProperty (factories st nm) (provider st) of
        Undefined \<Rightarrow> Throws UnknownProvider
      | OwnProperty p \<Rightarrow> Returns p
      | InheritedProperty key \<Rightarrow> CallsInherited key)"

text \<open>
  The call \<open>factory()\<close> on a value inherited from \<open>Object.prototype\<close>, a plain call, so
  with \<open>this\<close> undefined. \<open>Object()\<close> returns a new empty object;
  \<open>Object.prototype.toString\<close> returns \<open>[object Undefined]\<close>; \<open>isPrototypeOf\<close> returns
  false for an argument that is no object. \<open>__proto__\<close> gives the prototype object, which
  is not callable, and each of the other functions converts \<open>this\<close> to an object first:
  these throw a \<open>TypeError\<close>. No value returned here has a method
  \<open>extractTextFromBase64\<close>.
\<close>

datatype js_value = EmptyObject | StringValue jsstring | BooleanValue bool

definition callInherited :: "jsstring \<Rightarrow> error + js_value" where
  "callInherited key =
     (if key = js ''constructor'' then Inr EmptyObject
      else if key = js ''toString'' then Inr (StringValue (js ''[object Undefined]''))
      else if key = js ''isPrototypeOf'' then Inr (BooleanValue False)
      else Inl TypeError)"

text \<open>The provider identifiers of the type \<open>GPTImageOCRSettings["provider"]\<close>.\<close>

definition providerIds :: "jsstring list" where
  "providerIds =
     map js [''openai'', ''openai-mini'', ''openai-4.1'', ''openai-4.1-mini'', ''openai-4.1-nano'',
             ''gemini'', ''gemini-lite'', ''gemini-pro'', ''ollama'', ''lmstudio'', ''custom'']"

text \<open>
  What a command has around it: the settings, the vault, and the collaborators whose
  code is outside the listing: the table of friendly provider names, the link resolver
  \<open>metadataCache.getFirstLinkpathDest\<close>, the results of the two fallback locators
  \<open>findImageEmbedFromCache\<close> and \<open>findImageEmbedInFileContent\<close>, the loader of pdf.js,
  and the provider's two calls (\<open>process\<close> is optional).
\<close>

record plugin =
  settings :: GPTImageOCRSettings
  theVault :: vault
  friendlyProviderName :: "jsstring option"
  getFirstLinkpathDest :: "jsstring \<Rightarrow> TFile option"
  findImageEmbedFromCache :: "EmbedMatch option"
  findImageEmbedInFileContent :: "EmbedMatch option"
  getDocument :: "ArrayBuffer \<Rightarrow> load_outcome"
  extractTextFromBase64 :: "OCRProvider \<Rightarrow> jsstring \<Rightarrow> error + jsstring option"
  process :: "OCRProvider \<Rightarrow> (PreparedImage list \<Rightarrow> jsstring \<Rightarrow> error + jsstring) option"

text \<open>
  What a command does to the outside, in order: a user-visible notice of \<open>pluginLog\<close>, a
  call of the PDF loader on a buffer, the replacement of the selection, the hand-over of
  content to \<open>handleExtractedContent\<close> (utils/format, outside the listing), and an
  exception that leaves the command.
\<close>

datatype content = Single jsstring | Many "jsstring list"

datatype effect =
    Notice string
  | GetDocument ArrayBuffer
  | ReplaceSelection jsstring
  | HandleExtractedContent content
  | Uncaught error

text \<open>
  The page loop of \<open>processPdfFile\<close>: \<open>if (text) allText.push(text)\<close>, where null and
  the empty string are falsy; a throw of the provider leaves the loop.
\<close>

fun extractPages ::
  "plugin \<Rightarrow> OCRProvider \<Rightarrow> PDFPageImage list \<Rightarrow> error + jsstring list" where
  "extractPages p prov [] = Inr []"
| "extractPages p prov (page # pages) =
     (case extractTextFromBase64 p prov (PDFPageImage.base64 page) of
        Inl e \<Rightarrow> Inl e
      | Inr text \<Rightarrow>
          (case extractPages p prov pages of
             Inl e \<Rightarrow> Inl e
           | Inr texts \<Rightarrow>
               Inr ((case text of None \<Rightarrow> [] | Some t \<Rightarrow> if t = [] then [] else [t]) @ texts)))"

text \<open>\<open>allText.join("\n\n---\n\n")\<close>.\<close>

fun joinWith :: "jsstring \<Rightarrow> jsstring list \<Rightarrow> jsstring" where
  "joinWith sep [] = []"
| "joinWith sep [t] = t"
| "joinWith sep (t # ts) = t @ sep @ joinWith sep ts"

definition pageSeparator :: jsstring where
  "pageSeparator = [10, 10] @ js ''---'' @ [10, 10]"

text \<open>
  \<open>processPdfFile\<close>. The call of \<open>convertPdfToImages\<close> starts with the loader, hence the
  \<open>GetDocument\<close>; the scale and the page bound are \<open>settings.pdfScale ?? 2.0\<close> and
  \<open>settings.pdfMaxPages ?? 50\<close>. Everything is inside one \<open>try\<close>, whose \<open>catch\<close> turns
  the two PDF errors and any other exception into a notice; so it does with the
  \<open>TypeError\<close> of a \<open>factory()\<close> that throws, and with the \<open>TypeError\<close> of
  \<open>provider.extractTextFromBase64(...)\<close> on a value that has no such method (the page
  list is not empty there, so the loop makes the call). The progress notice, which is
  hidden on every path, is not part of the trace.
\<close>

definition processPdfFile :: "plugin \<Rightarrow> ArrayBuffer \<Rightarrow> jsstring \<Rightarrow> effect list" where
  "processPdfFile p arrayBuffer l =
     GetDocument arrayBuffer #
     (case convertPdfToImages (getDocument p) arrayBuffer
             (case pdfScale (settings p) of None \<Rightarrow> 2 | Some sc \<Rightarrow> sc)
             (case pdfMaxPages (settings p) of None \<Rightarrow> 50 | Some n \<Rightarrow> n) of
        Inl PDFEncryptedError \<Rightarrow> [Notice ''Cannot process password-protected PDF.'']
      | Inl PDFCorruptedError \<Rightarrow> [Notice ''PDF appears to be corrupted or invalid.'']
      | Inl e \<Rightarrow> [Notice ''Failed to process PDF.'']
      | Inr pageImages \<Rightarrow>
          (if pageImages = [] then [Notice ''Could not extract any pages from PDF.'']
           else (case getProvider (settings p) (friendlyProviderName p) of
                   Throws e \<Rightarrow> [Notice ''Failed to process PDF.'']
                 | CallsInherited key \<Rightarrow>
                     (case callInherited key of
                        Inl e \<Rightarrow> [Notice ''Failed to process PDF.'']
                      | Inr notProvider \<Rightarrow> [Notice ''Failed to process PDF.''])
                 | Returns prov \<Rightarrow>
                     (case extractPages p prov pageImages of
                        Inl e \<Rightarrow> [Notice ''Failed to process PDF.'']
                      | Inr allText \<Rightarrow>
                          (if allText = []
                           then [Notice ''No text could be extracted from PDF.'']
                           else [HandleExtractedContent
                                   (Single (if 1 < length allText
                                            then joinWith pageSeparator allText
                                            else hd allText))])))))"

text \<open>
  The command "Extract text from embedded image". \<open>selectionEmbedMatch\<close> is
  \<open>sel.match(/!\[\[.*?\]\]/) || sel.match(/!\[.*?\]\(.*?\)/)\<close>.
\<close>

definition anyWikiEmbedPattern :: regex where
  "anyWikiEmbedPattern =
     Seq (lit ''![['') (Seq (LazyStar (Class AnyExceptNewline)) (lit '']]''))"

definition anyMarkdownEmbedPattern :: regex where
  "anyMarkdownEmbedPattern =
     Seq (lit ''!['')
       (Seq (LazyStar (Class AnyExceptNewline))
       (Seq (lit '']('')
       (Seq (LazyStar (Class AnyExceptNewline)) (lit '')''))))"

definition selectionEmbedMatch :: "jsstring \<Rightarrow> RegExpMatch option" where
  "selectionEmbedMatch sel =
     (case regexMatch False anyWikiEmbedPattern sel of
        Some m \<Rightarrow> Some m
      | None \<Rightarrow> regexMatch False anyMarkdownEmbedPattern sel)"

text \<open>The locator with its two fallbacks, tried in this order.\<close>

definition locateEmbed :: "plugin \<Rightarrow> Editor \<Rightarrow> EmbedMatch option" where
  "locateEmbed p editor =
     (case findRelevantImageEmbed editor of
        Some e \<Rightarrow> Some e
      | None \<Rightarrow>
          (case findImageEmbedFromCache p of
             Some e \<Rightarrow> Some e
           | None \<Rightarrow> findImageEmbedInFileContent p))"

text \<open>
  Reading the embed's bytes: \<open>Inl\<close> holds the effects with which the command ends
  when it has no buffer to go on with. An external link is fetched (null comes with the
  fetcher's own notice "Failed to fetch image." and gives "Could not read image
  data."); an internal one is resolved and read, and a throw of
  \<open>readBinary\<close>, which no \<open>try\<close> surrounds, leaves the command.
\<close>

definition readEmbed :: "plugin \<Rightarrow> EmbedMatch \<Rightarrow> effect list + ArrayBuffer" where
  "readEmbed p e =
     (if EmbedMatch.isExternal e then
        (case fetchExternalImageAsArrayBuffer (theVault p) (link e) of
           None \<Rightarrow>
             Inl [Notice ''Failed to fetch image.'', Notice ''Could not read image data.'']
         | Some arrayBuffer \<Rightarrow> Inr arrayBuffer)
      else
        (case getFirstLinkpathDest p (link e) of
           None \<Rightarrow> Inl [Notice ''Image file not found in vault.'']
         | Some f \<Rightarrow>
             (case readBinary (theVault p) f of
                Inl err \<Rightarrow> Inl [Uncaught err]
              | Inr arrayBuffer \<Rightarrow> Inr arrayBuffer)))"

text \<open>
  The image branch, after the PDF check. \<open>getProvider\<close> is called before the \<open>try\<close>;
  inside it, a throw of the provider gives "Failed to extract text.", a null or empty
  answer gives "No content returned.", and the answer replaces the selection when the
  selection is exactly the embed (\<open>embedMatch && sel === embedMatch[0]\<close>) and is handed to
  \<open>handleExtractedContent\<close> otherwise. With an inherited \<open>factory\<close>, a throw of
  \<open>factory()\<close> leaves the command, and a value it returns has no
  \<open>extractTextFromBase64\<close>: the call inside the \<open>try\<close> throws a \<open>TypeError\<close>, which
  the \<open>catch\<close> turns into "Failed to extract text.". The progress notice, which is
  shown during the call and hidden after it, is not part of the trace.
\<close>

definition extractFromImage :: "plugin \<Rightarrow> Editor \<Rightarrow> ArrayBuffer \<Rightarrow> effect list" where
  "extractFromImage p editor arrayBuffer =
     (let sel = getSelection editor;
          embedMatch = selectionEmbedMatch sel;
          b64 = arrayBufferToBase64 arrayBuffer
      in case getProvider (settings p) (friendlyProviderName p) of
           Throws err \<Rightarrow> [Uncaught err]
         | CallsInherited key \<Rightarrow>
             (case callInherited key of
                Inl err \<Rightarrow> [Uncaught err]
              | Inr notProvider \<Rightarrow> [Notice ''Failed to extract text.''])
         | Returns prov \<Rightarrow>
             (case extractTextFromBase64 p prov b64 of
                Inl err \<Rightarrow> [Notice ''Failed to extract text.'']
              | Inr None \<Rightarrow> [Notice ''No content returned.'']
              | Inr (Some text) \<Rightarrow>
                  (if text = [] then [Notice ''No content returned.'']
                   else if (case embedMatch of None \<Rightarrow> False | Some m \<Rightarrow> sel = matched m)
                        then [ReplaceSelection text]
                        else [HandleExtractedContent (Single text)])))"

definition extractTextFromEmbeddedImage :: "plugin \<Rightarrow> Editor \<Rightarrow> effect list" where
  "extractTextFromEmbeddedImage p editor =
     (case locateEmbed p editor of
        None \<Rightarrow> [Notice ''No image embed found.'']
      | Some e \<Rightarrow>
          (case readEmbed p e of
             Inl effects \<Rightarrow> effects
           | Inr arrayBuffer \<Rightarrow>
               (if isPdfFile (link e) \<or> isPdfBuffer arrayBuffer
                then processPdfFile p arrayBuffer (link e)
                else extractFromImage p editor arrayBuffer)))"

text \<open>
  The command "Extract text from image folder". A \<open>File\<close> of the picker has a name, a
  type and its bytes; \<open>file.size\<close> is the number of those bytes.
\<close>

record File =
  name :: jsstring
  type' :: jsstring
  bytes :: ArrayBuffer

text \<open>The filter \<open>/\.(png|jpe?g|webp|gif|bmp|svg)$/i.test(file.name)\<close>.\<close>

definition folderImageExt :: regex where
  "folderImageExt =
     Seq (lit ''.'')
       (Seq (Group 1
               (Alt (lit ''png'')
               (Alt (Seq (lit ''jp'') (Seq (opt (lit ''e'')) (lit ''g'')))
               (Alt (lit ''webp'')
               (Alt (lit ''gif'')
               (Alt (lit ''bmp'') (lit ''svg'')))))))
            Eol)"

definition imageFiles :: "File list \<Rightarrow> File list" where
  "imageFiles files = filter (\<lambda>f. regexTest True folderImageExt (File.name f)) files"

text \<open>The extensions of the folder batch, as the specification lists them.\<close>

definition folderExtensions :: "jsstring list" where
  "folderExtensions = map js [''png'', ''jpg'', ''jpeg'', ''webp'', ''gif'', ''bmp'', ''svg'']"

definition preparedOfFile :: "vault \<Rightarrow> File \<Rightarrow> PreparedImage" where
  "preparedOfFile v f =
     (let dims = getImageDimensionsFromArrayBuffer v (bytes f)
      in \<lparr>PreparedImage.name = File.name f,
          PreparedImage.base64 = arrayBufferToBase64 (bytes f),
          PreparedImage.mime = type' f,
          PreparedImage.size' = length (bytes f),
          PreparedImage.width = map_option fst dims,
          PreparedImage.height = map_option snd dims,
          PreparedImage.source = File.name f\<rparr>)"

definition preparedBatch :: "vault \<Rightarrow> File list \<Rightarrow> PreparedImage list" where
  "preparedBatch v files = map (preparedOfFile v) (imageFiles files)"

text \<open>
  The pattern \<open>/--- BEGIN IMAGE: ---\s*([\s\S]*?)\s*--- END IMAGE ---/g\<close>, the array
  \<open>matches\<close> of the trimmed first groups of all its matches, and \<open>contentForFormatting\<close>.
\<close>

definition beginMarker :: string where
  "beginMarker = ''--- BEGIN IMAGE: ---''"

definition endMarker :: string where
  "endMarker = ''--- END IMAGE ---''"

definition batchBlockPattern :: regex where
  "batchBlockPattern =
     Seq (lit beginMarker)
       (Seq (Star (Class WhiteSpace))
       (Seq (Group 1 (LazyStar (Class AnyChar)))
       (Seq (Star (Class WhiteSpace)) (lit endMarker))))"

text \<open>
  For the proofs about this pattern: its part after the begin marker, the part after
  the group, and the list of ends that the lazy group followed by a pattern \<open>t\<close> gives
  (the group tried with 0, 1, 2, ... characters, \<open>pre\<close> being what it holds already).
\<close>

definition blockTail :: regex where
  "blockTail = Seq (Star (Class WhiteSpace)) (lit endMarker)"

definition blockRest :: regex where
  "blockRest =
     Seq (Star (Class WhiteSpace)) (Seq (Group 1 (LazyStar (Class AnyChar))) blockTail)"

definition lazyTries ::
  "regex \<Rightarrow> nat \<Rightarrow> jsstring \<Rightarrow> jsstring \<Rightarrow> (nat \<times> jsstring) list \<Rightarrow> mstate list" where
  "lazyTries t j pre x cs =
     concat (map (\<lambda>k. ends False t (j + k, drop k x, (1, pre @ take k x) # cs))
                 [0..<Suc (length x)])"

definition batchMatches :: "jsstring \<Rightarrow> jsstring list" where
  "batchMatches response =
     map (\<lambda>m. trim (capture m 1)) (regexMatchAll False batchBlockPattern response 0)"

definition contentForFormatting :: "jsstring \<Rightarrow> content" where
  "contentForFormatting response =
     (let matches = batchMatches response
      in if 1 < length matches then Many matches
         else Single (if length matches = 1 then hd matches else trim response))"

text \<open>
  The batch flow of the specification, in its own words: the response is scanned from
  the left; the next block starts at the first begin marker, ends at the first end
  marker after it, and the scan goes on behind that end marker; a begin marker with no
  end marker after it ends the scan. Each block gives its text, trimmed.
\<close>

fun findMarker :: "jsstring \<Rightarrow> jsstring \<Rightarrow> (jsstring \<times> jsstring) option" where
  "findMarker marker [] = (if marker = [] then Some ([], []) else None)"
| "findMarker marker (c # cs) =
     (if take (length marker) (c # cs) = marker
      then Some ([], drop (length marker) (c # cs))
      else (case findMarker marker cs of
              None \<Rightarrow> None
            | Some (before, after) \<Rightarrow> Some (c # before, after)))"

function scanBlocks :: "jsstring \<Rightarrow> jsstring list" where
  "scanBlocks response =
     (case findMarker (js beginMarker) response of
        None \<Rightarrow> []
      | Some (skipped, afterBegin) \<Rightarrow>
          (case findMarker (js endMarker) afterBegin of
             None \<Rightarrow> []
           | Some (body, afterEnd) \<Rightarrow> trim body # scanBlocks afterEnd))"
  by pat_completeness auto

text \<open>
  Values for the examples: the \<open>DEFAULT_SETTINGS\<close> of the source, a vault whose reads
  give three bytes and whose requests fail, and a plugin around them whose provider
  answers "Hello world" and whose link resolver finds every file.
\<close>

definition DEFAULT_SETTINGS :: GPTImageOCRSettings where
  "DEFAULT_SETTINGS =
     \<lparr>provider = js ''openai'',
      openaiApiKey = [],
      geminiApiKey = [],
      ollamaUrl = js ''http://localhost:11434'',
      ollamaModel = js ''llama3.2-vision'',
      lmstudioUrl = js ''http://localhost:1234'',
      lmstudioModel = js ''google/gemma-3-4b'',
      customApiUrl = [],
      customApiModel = [],
      customApiKey = [],
      customPrompt = [],
      batchCustomPrompt = [],
      pdfScale = Some 2,
      pdfMaxPages = Some 50\<rparr>"

definition exampleVault :: vault where
  "exampleVault =
     \<lparr>requestUrl = (\<lambda>url. Inl HostError),
      readBinary = (\<lambda>f. if TFile.name f = js ''locked.png'' then Inl HostError
                        else Inr [1, 2, 3]),
      getImageDimensionsFromArrayBuffer = (\<lambda>buffer. None),
      decodeURIComponent = (\<lambda>s. Inr s)\<rparr>"

definition externalImage :: CollectedImage where
  "externalImage =
     \<lparr>CollectedImage.source = js ''https://example.com/a.png'', file' = None,
      CollectedImage.isExternal = True\<rparr>"

definition lockedFile :: TFile where
  "lockedFile = \<lparr>path = js ''locked.png'', TFile.name = js ''locked.png''\<rparr>"

definition localImage :: "TFile option \<Rightarrow> CollectedImage" where
  "localImage f =
     \<lparr>CollectedImage.source = js ''a.png'', file' = f, CollectedImage.isExternal = False\<rparr>"

definition diagramFile :: TFile where
  "diagramFile = \<lparr>path = js ''diagram.png'', TFile.name = js ''diagram.png''\<rparr>"

definition examplePlugin :: plugin where
  "examplePlugin =
     \<lparr>settings = DEFAULT_SETTINGS,
      theVault = exampleVault,
      friendlyProviderName = Some (js ''OpenAI''),
      getFirstLinkpathDest = (\<lambda>l. Some \<lparr>path = l, TFile.name = l\<rparr>),
      findImageEmbedFromCache = None,
      findImageEmbedInFileContent = None,
      getDocument = exampleGetDocument,
      extractTextFromBase64 = (\<lambda>prov b64. Inr (Some (js ''Hello world''))),
      process = (\<lambda>prov. None)\<rparr>"

definition exampleFiles :: "File list" where
  "exampleFiles =
     [\<lparr>File.name = js ''a.PNG'', type' = js ''image/png'', bytes = [1]\<rparr>,
      \<lparr>File.name = js ''b.pdf'', type' = js ''application/pdf'', bytes = [2]\<rparr>,
      \<lparr>File.name = js ''c.txt'', type' = js ''text/plain'', bytes = [3]\<rparr>]"

definition exampleEditor :: Editor where
  "exampleEditor =
     \<lparr>getSelection = js ''![[diagram.png]]'', cursorLine = 0, getLine = (\<lambda>i. [])\<rparr>"

definition diagramSelection :: jsstring where
  "diagramSelection = js ''![[diagram.png]]''"

definition pdfLinkEditor :: Editor where
  "pdfLinkEditor = \<lparr>getSelection = js ''![[scan.pdf]]'', cursorLine = 0, getLine = (\<lambda>i. [])\<rparr>"

section \<open>The scans terminate\<close>

text \<open>
  A match never moves backwards: every end state is the start state advanced by some
  number of code units. The loop of \<open>matchAll\<close> below terminates by this.
\<close>

lemma ends_Star_unfold:
  "set (ends ic (Star a) st) =
     insert st (\<Union>st1 \<in> {s \<in> set (ends ic a st). length (fst (snd s)) < length (fst (snd st))}.
                   set (ends ic (Star a) st1))"
  by (subst ends.simps(8)) (auto simp del: ends.simps split: if_splits)

lemma ends_LazyStar_unfold:
  "set (ends ic (LazyStar a) st) =
     insert st (\<Union>st1 \<in> {s \<in> set (ends ic a st). length (fst (snd s)) < length (fst (snd st))}.
                   set (ends ic (LazyStar a) st1))"
  by (subst ends.simps(9)) (auto simp del: ends.simps split: if_splits)

lemma ends_Star_cases:
  assumes "st' \<in> set (ends ic (Star a) st)"
  shows "st' = st \<or> (\<exists>st1 \<in> set (ends ic a st).
           length (fst (snd st1)) < length (fst (snd st)) \<and> st' \<in> set (ends ic (Star a) st1))"
proof -
  from assms have "st' \<in> insert st (\<Union>st1 \<in> {s \<in> set (ends ic a st).
      length (fst (snd s)) < length (fst (snd st))}. set (ends ic (Star a) st1))"
    by (subst (asm) ends_Star_unfold)
  then show ?thesis by blast
qed

lemma ends_LazyStar_cases:
  assumes "st' \<in> set (ends ic (LazyStar a) st)"
  shows "st' = st \<or> (\<exists>st1 \<in> set (ends ic a st).
           length (fst (snd st1)) < length (fst (snd st)) \<and> st' \<in> set (ends ic (LazyStar a) st1))"
proof -
  from assms have "st' \<in> insert st (\<Union>st1 \<in> {s \<in> set (ends ic a st).
      length (fst (snd s)) < length (fst (snd st))}. set (ends ic (LazyStar a) st1))"
    by (subst (asm) ends_LazyStar_unfold)
  then show ?thesis by blast
qed

lemma ends_advance:
  "st' \<in> set (ends ic rx st) \<Longrightarrow>
     \<exists>k. k \<le> length (fst (snd st)) \<and> fst (snd st') = drop k (fst (snd st)) \<and> fst st' = fst st + k"
proof (induction ic rx st arbitrary: st' rule: ends.induct)
  case (1 ic st)
  then show ?case by (intro exI [of _ 0]) simp
next
  case (2 ic p i cs)
  then show ?case by simp
next
  case (3 ic p i c r cs)
  then show ?case by (intro exI [of _ 1]) (auto split: if_splits)
next
  case (4 ic k i cs)
  then show ?case by simp
next
  case (5 ic k i c r cs)
  then show ?case by (intro exI [of _ 1]) (auto split: if_splits)
next
  case (6 ic a b st)
  from "6.prems" obtain st1 where st1: "st1 \<in> set (ends ic a st)" and st': "st' \<in> set (ends ic b st1)"
    by auto
  from "6.IH"(1) [OF st1] obtain k1 where k1: "k1 \<le> length (fst (snd st))"
    "fst (snd st1) = drop k1 (fst (snd st))" "fst st1 = fst st + k1" by blast
  from "6.IH"(2) [OF st1 st'] obtain k2 where k2: "k2 \<le> length (fst (snd st1))"
    "fst (snd st') = drop k2 (fst (snd st1))" "fst st' = fst st1 + k2" by blast
  show ?case
    using k1 k2 by (intro exI [of _ "k1 + k2"]) (auto simp: add.commute)
next
  case (7 ic a b st)
  from "7.prems" have "st' \<in> set (ends ic a st) \<or> st' \<in> set (ends ic b st)"
    by simp
  then show ?case
  proof
    assume "st' \<in> set (ends ic a st)"
    then show ?thesis by (rule "7.IH"(1))
  next
    assume "st' \<in> set (ends ic b st)"
    then show ?thesis by (rule "7.IH"(2))
  qed
next
  case (8 ic a st)
  from ends_Star_cases [OF "8.prems"] consider (stop) "st' = st"
    | (step) st1 where "st1 \<in> set (ends ic a st)"
        "length (fst (snd st1)) < length (fst (snd st))" "st' \<in> set (ends ic (Star a) st1)"
    by blast
  then show ?case
  proof cases
    case stop
    then show ?thesis by (intro exI [of _ 0]) simp
  next
    case step
    from "8.IH"(1) [OF step(1)] obtain k1 where k1: "k1 \<le> length (fst (snd st))"
      "fst (snd st1) = drop k1 (fst (snd st))" "fst st1 = fst st + k1" by blast
    from "8.IH"(2) [OF step(1) step(2) step(3)] obtain k2 where k2: "k2 \<le> length (fst (snd st1))"
      "fst (snd st') = drop k2 (fst (snd st1))" "fst st' = fst st1 + k2" by blast
    show ?thesis
      using k1 k2 by (intro exI [of _ "k1 + k2"]) (auto simp: add.commute)
  qed
next
  case (9 ic a st)
  from ends_LazyStar_cases [OF "9.prems"] consider (stop) "st' = st"
    | (step) st1 where "st1 \<in> set (ends ic a st)"
        "length (fst (snd st1)) < length (fst (snd st))" "st' \<in> set (ends ic (LazyStar a) st1)"
    by blast
  then show ?case
  proof cases
    case stop
    then show ?thesis by (intro exI [of _ 0]) simp
  next
    case step
    from "9.IH"(1) [OF step(1)] obtain k1 where k1: "k1 \<le> length (fst (snd st))"
      "fst (snd st1) = drop k1 (fst (snd st))" "fst st1 = fst st + k1" by blast
    from "9.IH"(2) [OF step(1) step(2) step(3)] obtain k2 where k2: "k2 \<le> length (fst (snd st1))"
      "fst (snd st') = drop k2 (fst (snd st1))" "fst st' = fst st1 + k2" by blast
    show ?thesis
      using k1 k2 by (intro exI [of _ "k1 + k2"]) (auto simp: add.commute)
  qed
next
  case (10 ic k a i r cs)
  then show ?case by auto
next
  case (11 ic i r cs)
  then show ?case by (intro exI [of _ 0]) (auto split: if_splits)
next
  case (12 ic i r cs)
  then show ?case by (intro exI [of _ 0]) (auto split: if_splits)
qed

lemma regexExec_bounds:
  "regexExec ic r s lastIndex = Some m \<Longrightarrow>
     lastIndex \<le> index m \<and> index m \<le> endIndex m \<and> endIndex m \<le> length s"
proof (induction ic r s lastIndex rule: regexExec.induct)
  case (1 ic r s lastIndex)
  show ?case
  proof (cases "length s < lastIndex")
    case True
    with "1.prems" show ?thesis by (subst (asm) regexExec.simps) simp
  next
    case False
    show ?thesis
    proof (cases "ends ic r (lastIndex, drop lastIndex s, [])")
      case Nil
      with False "1.prems" have "regexExec ic r s (Suc lastIndex) = Some m"
        by (subst (asm) regexExec.simps) simp
      with "1.IH" [OF False Nil] show ?thesis by simp
    next
      case (Cons st rest)
      obtain e r' cs where st: "st = (e, r', cs)" by (cases st)
      from Cons st False "1.prems"
      have m: "m = \<lparr>index = lastIndex, matched = take (e - lastIndex) (drop lastIndex s),
                     endIndex = e, captures = cs\<rparr>"
        by (subst (asm) regexExec.simps) simp
      from Cons st have "(e, r', cs) \<in> set (ends ic r (lastIndex, drop lastIndex s, []))"
        by simp
      from ends_advance [OF this] obtain k
        where "k \<le> length (drop lastIndex s)" "e = lastIndex + k" by auto
      with False m show ?thesis by simp
    qed
  qed
qed

text \<open>The loop of \<open>matchAll\<close> terminates: each search starts further right.\<close>

termination regexMatchAll
proof (relation "measure (\<lambda>(ic, r, s, lastIndex). Suc (length s) - lastIndex)")
  show "wf (measure (\<lambda>(ic, r, s, lastIndex). Suc (length s) - lastIndex))"
    by simp
next
  fix ic r s lastIndex m
  assume "regexExec ic r s lastIndex = Some m"
  from regexExec_bounds [OF this]
  show "((ic, r, s, if endIndex m = index m then Suc (endIndex m) else endIndex m),
         (ic, r, s, lastIndex))
        \<in> measure (\<lambda>(ic, r, s, lastIndex). Suc (length s) - lastIndex)"
    by auto
qed

declare regexMatchAll.simps [simp del]

text \<open>What \<open>findMarker\<close> finds is the first occurrence of the marker.\<close>

lemma findMarker_split:
  "findMarker marker s = Some (before, after) \<Longrightarrow> s = before @ marker @ after"
proof (induction s arbitrary: before)
  case Nil
  then show ?case by (simp split: if_splits)
next
  case (Cons c cs)
  show ?case
  proof (cases "take (length marker) (c # cs) = marker")
    case True
    with Cons.prems have "before = []" "after = drop (length marker) (c # cs)"
      by simp_all
    with True show ?thesis
      by (metis append_Nil append_take_drop_id)
  next
    case False
    with Cons.prems obtain b' where b': "findMarker marker cs = Some (b', after)"
      and before: "before = c # b'"
      by (auto split: option.splits)
    from Cons.IH [OF b'] before show ?thesis by simp
  qed
qed

lemma findMarker_first:
  "findMarker marker s = Some (before, after) \<Longrightarrow> k < length before \<Longrightarrow>
     take (length marker) (drop k s) \<noteq> marker"
proof (induction s arbitrary: before k)
  case Nil
  then show ?case by (simp split: if_splits)
next
  case (Cons c cs)
  show ?case
  proof (cases "take (length marker) (c # cs) = marker")
    case True
    with Cons.prems show ?thesis by simp
  next
    case False
    with Cons.prems(1) obtain b' where b': "findMarker marker cs = Some (b', after)"
      and before: "before = c # b'"
      by (auto split: option.splits)
    show ?thesis
    proof (cases k)
      case 0
      with False show ?thesis by simp
    next
      case (Suc k')
      with Cons.prems(2) before have "k' < length b'" by simp
      from Cons.IH [OF b' this] Suc show ?thesis by simp
    qed
  qed
qed

lemma findMarker_None:
  "findMarker marker s = None \<Longrightarrow> take (length marker) (drop k s) \<noteq> marker"
proof (induction s arbitrary: k)
  case Nil
  then show ?case by (simp split: if_splits)
next
  case (Cons c cs)
  from Cons.prems have here: "take (length marker) (c # cs) \<noteq> marker"
    and there: "findMarker marker cs = None"
    by (auto split: if_splits option.splits)
  show ?case
  proof (cases k)
    case 0
    with here show ?thesis by simp
  next
    case (Suc k')
    with Cons.IH [OF there, of k'] show ?thesis by simp
  qed
qed

lemma findMarker_None_drop:
  assumes "findMarker marker s = None" and "marker \<noteq> []"
  shows "findMarker marker (drop k s) = None"
proof (rule ccontr)
  assume "findMarker marker (drop k s) \<noteq> None"
  then obtain b a where "findMarker marker (drop k s) = Some (b, a)" by auto
  from findMarker_split [OF this] have "drop k s = b @ marker @ a" .
  then have "take (length marker) (drop (length b) (drop k s)) = marker" by simp
  then have "take (length marker) (drop (length b + k) s) = marker" by simp
  with findMarker_None [OF assms(1)] show False by blast
qed

text \<open>The scan of the specification terminates: each block is behind the previous one.\<close>

termination scanBlocks
proof (relation "measure length")
  show "wf (measure length)" by simp
next
  fix response :: jsstring and x2 skipped afterBegin x2a body afterEnd
  assume b: "findMarker (js beginMarker) response = Some x2" "(skipped, afterBegin) = x2"
    and e: "findMarker (js endMarker) afterBegin = Some x2a" "(body, afterEnd) = x2a"
  from b have "response = skipped @ js beginMarker @ afterBegin"
    by (intro findMarker_split) simp
  then have "length response = length skipped + length (js beginMarker) + length afterBegin"
    by (metis length_append add.assoc)
  moreover from e have "afterBegin = body @ js endMarker @ afterEnd"
    by (intro findMarker_split) simp
  then have "length afterBegin = length body + length (js endMarker) + length afterEnd"
    by (metis length_append add.assoc)
  moreover have "0 < length (js endMarker)"
    by (simp add: endMarker_def js_def)
  ultimately have "length afterEnd < length response"
    by linarith
  then show "(afterEnd, response) \<in> measure length" by simp
qed

declare scanBlocks.simps [simp del]

section \<open>The page loop\<close>

lemma renderPages_done:
  "pagesToProcess < pageNum \<Longrightarrow> renderPages pdf scale pagesToProcess pageNum images = images"
  by (subst renderPages.simps) simp

lemma renderPages_pageNumbers:
  "map pageNumber (renderPages pdf scale pagesToProcess pageNum images) =
     map pageNumber images @ filter (pageRenders pdf scale) [pageNum..pagesToProcess]"
proof (induction pdf scale pagesToProcess pageNum images rule: renderPages.induct)
  case (1 pdf scale pagesToProcess pageNum images)
  show ?case
  proof (cases "pageNum \<le> pagesToProcess")
    case False
    then show ?thesis by (simp add: renderPages_done)
  next
    case True
    then have up: "[pageNum..pagesToProcess] = pageNum # [pageNum + 1..pagesToProcess]"
      by (simp add: upto_rec1)
    show ?thesis
    proof (cases "renderPage pdf pageNum scale")
      case PageThrows
      then have "\<not> pageRenders pdf scale pageNum"
        by (simp add: pageRenders_def)
      with PageThrows True "1.IH"(1) up show ?thesis
        by (subst renderPages.simps) simp
    next
      case NoCanvasContext
      then have "\<not> pageRenders pdf scale pageNum"
        by (simp add: pageRenders_def)
      with NoCanvasContext True "1.IH"(2) up show ?thesis
        by (subst renderPages.simps) simp
    next
      case (Rendered d w h)
      then have "pageRenders pdf scale pageNum"
        by (simp add: pageRenders_def)
      with Rendered True "1.IH"(3) up show ?thesis
        by (subst renderPages.simps) (simp add: Let_def)
    qed
  qed
qed

lemma sorted_wrt_less_filter_upto:
  "sorted_wrt (<) (filter P [i..j])"
proof -
  have "sorted_wrt (<) [i..j]"
    by (simp add: sorted_wrt_upto)
  then show ?thesis
    by (rule sorted_wrt_filter)
qed

lemma length_filter_upto_le:
  "int (length (filter P [1..n])) \<le> max 0 n"
proof -
  have "length (filter P [1..n]) \<le> length [1..n]"
    by (rule length_filter_le)
  then show ?thesis by simp
qed

text \<open>
  C4. After a successful load and for a positive \<open>maxPages\<close>, \<open>convertPdfToImages\<close>
  returns a list whose page numbers are exactly the pages of \<open>1..min(totalPages, maxPages)\<close>
  that render, in order: so it has at most \<open>min(totalPages, maxPages)\<close> elements, its
  page numbers increase strictly and lie in that range, and a page that fails is left
  out without renumbering or dropping any later page.
\<close>

theorem convertPdfToImages_pages:
  assumes "load buffer = Loaded pdf" and "0 < maxPages"
  shows "\<exists>images. convertPdfToImages load buffer scale maxPages = Inr images
           \<and> map pageNumber images =
               filter (pageRenders pdf scale) [1..min (int (numPages pdf)) maxPages]
           \<and> int (length images) \<le> min (int (numPages pdf)) maxPages
           \<and> sorted_wrt (<) (map pageNumber images)
           \<and> set (map pageNumber images) \<subseteq> {1..min (int (numPages pdf)) maxPages}"
proof -
  let ?n = "min (int (numPages pdf)) maxPages"
  let ?images = "renderPages pdf scale ?n 1 []"
  have conv: "convertPdfToImages load buffer scale maxPages = Inr ?images"
    using assms(1) by (simp add: convertPdfToImages_def Let_def)
  have nums: "map pageNumber ?images = filter (pageRenders pdf scale) [1..?n]"
    by (simp add: renderPages_pageNumbers)
  have len: "int (length ?images) \<le> ?n"
  proof -
    have "length ?images = length (map pageNumber ?images)" by simp
    also have "\<dots> = length (filter (pageRenders pdf scale) [1..?n])"
      by (simp only: nums)
    finally show ?thesis
      using length_filter_upto_le [of "pageRenders pdf scale" ?n] assms(2) by simp
  qed
  have inc: "sorted_wrt (<) (map pageNumber ?images)"
    by (simp only: nums sorted_wrt_less_filter_upto)
  have rng: "set (map pageNumber ?images) \<subseteq> {1..?n}"
    by (simp only: nums) auto
  from conv nums len inc rng show ?thesis by blast
qed

theorem convertPdfToImages_pages_witness:
  "\<exists>images. convertPdfToImages exampleGetDocument [] 2 5 = Inr images
     \<and> map pageNumber images = [1, 3]
     \<and> int (length images) \<le> 3
     \<and> sorted_wrt (<) (map pageNumber images)
     \<and> set (map pageNumber images) \<subseteq> {1..3}"
proof -
  have load: "exampleGetDocument [] = Loaded exampleDocument"
    by (simp add: exampleGetDocument_def)
  have pages: "filter (pageRenders exampleDocument 2) [1..3] = [1, 3]"
    by (simp add: pageRenders_def exampleDocument_def upto.simps)
  have n: "min (int (numPages exampleDocument)) 5 = 3"
    by (simp add: exampleDocument_def)
  show ?thesis
    using convertPdfToImages_pages
            [of exampleGetDocument "[]" exampleDocument 5 2, OF load]
          pages n
    by simp
qed

section \<open>The page bound of the PDF command\<close>

text \<open>
  C1. With \<open>pdfMaxPages = 0\<close> in the settings, \<open>processPdfFile\<close> hands the 0 to
  \<open>convertPdfToImages\<close>, whose \<open>Math.min(totalPages, maxPages)\<close> is then 0: for the
  three-page example document no page is rendered and the command ends with the notice
  that no page could be extracted. The bound 0 is honoured literally, not as "unlimited".
\<close>

theorem maxPages_zero_renders_no_page:
  "convertPdfToImages exampleGetDocument [] 2 0 = Inr []
   \<and> processPdfFile (examplePlugin\<lparr>settings := DEFAULT_SETTINGS\<lparr>pdfMaxPages := Some 0\<rparr>\<rparr>)
         [] (js ''scan.pdf'')
       = [GetDocument [], Notice ''Could not extract any pages from PDF.'']"
proof -
  have conv: "convertPdfToImages exampleGetDocument [] 2 0 = Inr []"
    by (simp add: convertPdfToImages_def exampleGetDocument_def exampleDocument_def
                  Let_def renderPages_done)
  then show ?thesis
    by (simp add: processPdfFile_def examplePlugin_def DEFAULT_SETTINGS_def)
qed

section \<open>The payload preparer never throws\<close>

text \<open>
  C6. \<open>prepareImagePayload\<close> always returns (it never throws), and it returns null
  when the fetch of an external image gives nothing, when the name of the URL does not
  decode, when a local image has no file handle, and when reading the file throws.
\<close>

theorem prepareImagePayload_never_throws:
  "(\<exists>result. prepareImagePayload v img = Inr result)
   \<and> (CollectedImage.isExternal img
        \<and> fetchExternalImageAsArrayBuffer v (CollectedImage.source img) = None
      \<longrightarrow> prepareImagePayload v img = Inr None)
   \<and> (CollectedImage.isExternal img
        \<and> (\<exists>e. decodeURIComponent v (splitLast 47 (CollectedImage.source img)) = Inl e)
      \<longrightarrow> prepareImagePayload v img = Inr None)
   \<and> (\<not> CollectedImage.isExternal img \<and> file' img = None
      \<longrightarrow> prepareImagePayload v img = Inr None)
   \<and> (\<not> CollectedImage.isExternal img
        \<and> (\<exists>f e. file' img = Some f \<and> readBinary v f = Inl e)
      \<longrightarrow> prepareImagePayload v img = Inr None)"
proof (intro conjI impI)
  show "\<exists>result. prepareImagePayload v img = Inr result"
    by (cases "prepareImagePayloadTry v img") (simp_all add: prepareImagePayload_def)
next
  assume "CollectedImage.isExternal img
    \<and> fetchExternalImageAsArrayBuffer v (CollectedImage.source img) = None"
  then show "prepareImagePayload v img = Inr None"
    by (simp add: prepareImagePayload_def prepareImagePayloadTry_def)
next
  assume "CollectedImage.isExternal img
    \<and> (\<exists>e. decodeURIComponent v (splitLast 47 (CollectedImage.source img)) = Inl e)"
  then show "prepareImagePayload v img = Inr None"
    by (auto simp: prepareImagePayload_def prepareImagePayloadTry_def split: option.splits)
next
  assume "\<not> CollectedImage.isExternal img \<and> file' img = None"
  then show "prepareImagePayload v img = Inr None"
    by (simp add: prepareImagePayload_def prepareImagePayloadTry_def)
next
  assume "\<not> CollectedImage.isExternal img
    \<and> (\<exists>f e. file' img = Some f \<and> readBinary v f = Inl e)"
  then show "prepareImagePayload v img = Inr None"
    by (auto simp: prepareImagePayload_def prepareImagePayloadTry_def)
qed

theorem prepareImagePayload_never_throws_witness:
  "prepareImagePayload exampleVault externalImage = Inr None
   \<and> prepareImagePayload exampleVault (localImage None) = Inr None
   \<and> prepareImagePayload exampleVault (localImage (Some lockedFile)) = Inr None"
proof (intro conjI)
  have "fetchExternalImageAsArrayBuffer exampleVault (CollectedImage.source externalImage)
          = None"
    by (simp add: fetchExternalImageAsArrayBuffer_def exampleVault_def)
  with prepareImagePayload_never_throws [of exampleVault externalImage]
  show "prepareImagePayload exampleVault externalImage = Inr None"
    by (simp add: externalImage_def)
next
  from prepareImagePayload_never_throws [of exampleVault "localImage None"]
  show "prepareImagePayload exampleVault (localImage None) = Inr None"
    by (simp add: localImage_def)
next
  have "readBinary exampleVault lockedFile = Inl HostError"
    by (simp add: exampleVault_def lockedFile_def)
  with prepareImagePayload_never_throws [of exampleVault "localImage (Some lockedFile)"]
  show "prepareImagePayload exampleVault (localImage (Some lockedFile)) = Inr None"
    by (simp add: localImage_def)
qed

section \<open>Provider selection\<close>

text \<open>
  For each of the eleven identifiers of the settings type, \<open>getProvider\<close> returns the
  provider its factory constructs.
\<close>

lemma getProvider_enumerated:
  "List.member providerIds ident \<Longrightarrow>
     \<exists>prov. getProvider (st\<lparr>provider := ident\<rparr>) nm = Returns prov"
  by (auto simp: providerIds_def getProvider_def getProperty_def factories_def Let_def
                 js_def)

text \<open>
  An identifier that is neither a key of \<open>factories\<close> nor a property of
  \<open>Object.prototype\<close> makes \<open>getProvider\<close> throw "Unknown provider".
\<close>

lemma getProvider_unknown:
  "\<not> List.member providerIds ident \<Longrightarrow> \<not> List.member objectPrototypeKeys ident \<Longrightarrow>
     getProvider (st\<lparr>provider := ident\<rparr>) nm = Throws UnknownProvider"
  by (auto simp: providerIds_def getProvider_def getProperty_def factories_def Let_def
                 js_def)

text \<open>
  C5. The identifier \<open>constructor\<close> is outside the enumerated set, yet \<open>getProvider\<close>
  does not throw "Unknown provider" on it: \<open>factories["constructor"]\<close> is the function
  inherited from \<open>Object.prototype\<close>, the guard \<open>!factory\<close> lets it pass, and
  \<open>factory()\<close> is evaluated on it.
\<close>

theorem getProvider_constructor_not_unknown:
  "\<not> List.member providerIds (js ''constructor'')
   \<and> getProvider (DEFAULT_SETTINGS\<lparr>provider := js ''constructor''\<rparr>) None
       = CallsInherited (js ''constructor'')"
  by (simp add: providerIds_def getProvider_def getProperty_def factories_def Let_def
                js_def objectPrototypeKeys_def DEFAULT_SETTINGS_def)

section \<open>Facts about the matcher\<close>

lemma matchesAt_Nil [simp]: "matchesAt ic [] r"
  by (simp add: matchesAt_def)

lemma matchesAt_Cons:
  "matchesAt ic (p # w) r = (case r of [] \<Rightarrow> False | c # r' \<Rightarrow> charMatches ic p c \<and> matchesAt ic w r')"
  by (cases r) (auto simp: matchesAt_def)

lemma ends_chars:
  "ends ic (foldr (\<lambda>c r. Seq (Chr c) r) w Eps) (i, r, cs) =
     (if matchesAt ic w r then [(i + length w, drop (length w) r, cs)] else [])"
proof (induction w arbitrary: i r)
  case Nil
  then show ?case by simp
next
  case (Cons p w)
  show ?case
  proof (cases r)
    case Nil
    then show ?thesis by (simp add: matchesAt_Cons)
  next
    case (Cons c r')
    with Cons.IH [of "Suc i" r'] show ?thesis
      by (simp add: matchesAt_Cons)
  qed
qed

lemma ends_lit:
  "ends ic (lit w) (i, r, cs) =
     (if matchesAt ic (js w) r then [(i + length w, drop (length w) r, cs)] else [])"
  using ends_chars [of ic "js w" i r cs] by (simp add: lit_def js_def)

lemma regexExec_None_iff:
  "regexExec ic r s k = None \<longleftrightarrow>
     (\<forall>i. k \<le> i \<and> i \<le> length s \<longrightarrow> ends ic r (i, drop i s, []) = [])"
proof (induction ic r s k rule: regexExec.induct)
  case (1 ic r s k)
  show ?case
  proof (cases "length s < k")
    case True
    then show ?thesis by (subst regexExec.simps) auto
  next
    case False
    show ?thesis
    proof (cases "ends ic r (k, drop k s, [])")
      case Nil
      have "regexExec ic r s k = regexExec ic r s (Suc k)"
        using False Nil by (subst regexExec.simps) simp
      also have "\<dots> = None \<longleftrightarrow>
          (\<forall>i. Suc k \<le> i \<and> i \<le> length s \<longrightarrow> ends ic r (i, drop i s, []) = [])"
        using "1.IH" [OF False Nil] .
      also have "\<dots> \<longleftrightarrow> (\<forall>i. k \<le> i \<and> i \<le> length s \<longrightarrow> ends ic r (i, drop i s, []) = [])"
        using Nil by (metis Suc_leI le_neq_implies_less Suc_leD)
      finally show ?thesis .
    next
      case (Cons st rest)
      obtain e r' cs where "st = (e, r', cs)" by (cases st)
      with Cons False have "regexExec ic r s k \<noteq> None"
        by (subst regexExec.simps) simp
      moreover from Cons False have "\<not> (\<forall>i. k \<le> i \<and> i \<le> length s \<longrightarrow> ends ic r (i, drop i s, []) = [])"
        by (intro notI) (auto dest!: spec [of _ k])
      ultimately show ?thesis by blast
    qed
  qed
qed

lemma regexTest_iff:
  "regexTest ic r s \<longleftrightarrow> (\<exists>i \<le> length s. ends ic r (i, drop i s, []) \<noteq> [])"
  by (auto simp: regexTest_def regexExec_None_iff)

lemma finishes_Alt: "finishes ic (Alt a b) st \<longleftrightarrow> finishes ic a st \<or> finishes ic b st"
  by (simp add: finishes_def)

lemma finishes_Eps: "finishes ic Eps (i, r, cs) \<longleftrightarrow> r = []"
  by (simp add: finishes_def)

lemma matchesAt_all: "matchesAt ic w r \<and> drop (length w) r = [] \<longleftrightarrow> list_all2 (charMatches ic) w r"
proof
  assume "matchesAt ic w r \<and> drop (length w) r = []"
  then show "list_all2 (charMatches ic) w r"
    by (auto simp: matchesAt_def)
next
  assume a: "list_all2 (charMatches ic) w r"
  then have "length r = length w" by (auto dest: list_all2_lengthD)
  with a show "matchesAt ic w r \<and> drop (length w) r = []"
    by (simp add: matchesAt_def)
qed

lemma finishes_lit: "finishes ic (lit w) (i, r, cs) \<longleftrightarrow> list_all2 (charMatches ic) (js w) r"
  using matchesAt_all [of ic "js w" r] by (auto simp: finishes_def ends_lit js_def)

lemma list_all2_append_take_drop:
  "list_all2 P (w @ w') r \<longleftrightarrow>
     length w \<le> length r \<and> list_all2 P w (take (length w) r) \<and> list_all2 P w' (drop (length w) r)"
proof
  assume a: "list_all2 P (w @ w') r"
  then have len: "length r = length w + length w'"
    by (auto dest: list_all2_lengthD)
  from a have "list_all2 P (w @ w') (take (length w) r @ drop (length w) r)" by simp
  with len show "length w \<le> length r \<and> list_all2 P w (take (length w) r) \<and> list_all2 P w' (drop (length w) r)"
    by (subst (asm) list_all2_append) auto
next
  assume a: "length w \<le> length r \<and> list_all2 P w (take (length w) r) \<and> list_all2 P w' (drop (length w) r)"
  then have "list_all2 P (w @ w') (take (length w) r @ drop (length w) r)"
    by (intro list_all2_appendI) auto
  then show "list_all2 P (w @ w') r" by simp
qed

lemma finishes_lit_Seq:
  "finishes ic (Seq (lit w) b) (i, r, cs) \<longleftrightarrow>
     matchesAt ic (js w) r \<and> finishes ic b (i + length w, drop (length w) r, cs)"
  by (simp add: finishes_def ends_lit)

lemma finishes_opt_Seq:
  "finishes ic (Seq (opt a) b) st \<longleftrightarrow> finishes ic (Seq a b) st \<or> finishes ic b st"
  by (simp add: finishes_def opt_def)

lemma ends_Group_Eol_nonempty:
  "ends ic (Seq (Group k a) Eol) (i, r, cs) \<noteq> [] \<longleftrightarrow> finishes ic a (i, r, cs)"
proof
  assume "ends ic (Seq (Group k a) Eol) (i, r, cs) \<noteq> []"
  then obtain st' where st': "st' \<in> set (ends ic a (i, r, cs))"
    and ne: "ends ic Eol (case st' of (i', r', cs') \<Rightarrow> (i', r', (k, take (i' - i) r) # cs')) \<noteq> []"
    by auto
  obtain j r' cs' where "st' = (j, r', cs')" by (cases st')
  with ne have "fst (snd st') = []" by (auto split: if_splits)
  with st' show "finishes ic a (i, r, cs)"
    by (auto simp: finishes_def list_ex_iff)
next
  assume "finishes ic a (i, r, cs)"
  then obtain st' where st': "st' \<in> set (ends ic a (i, r, cs))" and e: "fst (snd st') = []"
    by (auto simp: finishes_def list_ex_iff)
  obtain j r' cs' where eq: "st' = (j, r', cs')" by (cases st')
  with e have "ends ic Eol (case st' of (i', r', cs') \<Rightarrow> (i', r', (k, take (i' - i) r) # cs')) \<noteq> []"
    by simp
  with st' show "ends ic (Seq (Group k a) Eol) (i, r, cs) \<noteq> []"
    by auto
qed

lemma ends_lit_Seq_nonempty:
  "ends ic (Seq (lit w) b) (i, r, cs) \<noteq> [] \<longleftrightarrow>
     matchesAt ic (js w) r \<and> ends ic b (i + length w, drop (length w) r, cs) \<noteq> []"
  by (simp add: ends_lit)

lemma ends_lit_Eol_nonempty:
  "ends ic (Seq (lit w) Eol) (i, r, cs) \<noteq> [] \<longleftrightarrow> list_all2 (charMatches ic) (js w) r"
  using matchesAt_all [of ic "js w" r] by (auto simp: ends_lit js_def)

lemma finishes_lit_lit:
  "finishes ic (Seq (lit w) (lit w')) (i, r, cs) \<longleftrightarrow> list_all2 (charMatches ic) (js (w @ w')) r"
  by (auto simp: finishes_lit_Seq finishes_lit matchesAt_def js_def list_all2_append_take_drop)

lemma charMatches_lower:
  "notUpper p \<Longrightarrow> charMatches True p c \<longleftrightarrow> (if 65 \<le> c \<and> c \<le> 90 then c + 32 else c) = p"
  by (auto simp: charMatches_def canonicalize_def notUpper_def)

lemma list_all2_charMatches_lower:
  "list_all notUpper w \<Longrightarrow> list_all2 (charMatches True) w t \<longleftrightarrow> toLowerCase t = w"
proof (induction w arbitrary: t)
  case Nil
  then show ?case by (simp add: toLowerCase_def)
next
  case (Cons p w)
  show ?case
  proof (cases t)
    case Nil
    then show ?thesis by (simp add: toLowerCase_def)
  next
    case (Cons c t')
    from Cons.prems have p: "notUpper p" and w: "list_all notUpper w" by simp_all
    from Cons.IH [OF w, of t'] charMatches_lower [OF p, of c] Cons
    show ?thesis by (simp add: toLowerCase_def)
  qed
qed

lemma length_toLowerCase [simp]: "length (toLowerCase s) = length s"
  by (simp add: toLowerCase_def)

lemma exists_drop_lower:
  "(\<exists>i \<le> length s. toLowerCase (drop i s) = w) \<longleftrightarrow> endsWithIgnoringCase s w"
proof
  assume "\<exists>i \<le> length s. toLowerCase (drop i s) = w"
  then obtain i where i: "i \<le> length s" "toLowerCase (drop i s) = w" by blast
  then have "length w = length s - i"
    by (metis length_toLowerCase length_drop)
  with i have "i = length s - length w" "length w \<le> length s" by simp_all
  with i show "endsWithIgnoringCase s w" by (simp add: endsWithIgnoringCase_def)
next
  assume "endsWithIgnoringCase s w"
  then show "\<exists>i \<le> length s. toLowerCase (drop i s) = w"
    by (auto simp: endsWithIgnoringCase_def intro!: exI [of _ "length s - length w"])
qed

lemma isPdfFile_iff: "isPdfFile n \<longleftrightarrow> endsWithIgnoringCase n (js ''.pdf'')"
proof -
  have nu: "list_all notUpper (js ''.pdf'')" by (simp add: js_def notUpper_def)
  show ?thesis
    unfolding isPdfFile_def regexTest_iff pdfExt_def ends_lit_Eol_nonempty
      list_all2_charMatches_lower [OF nu] exists_drop_lower ..
qed

lemma prefix_all:
  "matchesAt ic (js w) r \<and> list_all2 (charMatches ic) (js w') (drop (length w) r) \<longleftrightarrow>
     list_all2 (charMatches ic) (js (w @ w')) r"
  by (auto simp: matchesAt_def js_def list_all2_append_take_drop)

lemma finishes_jpeg:
  "finishes ic (Seq (lit ''jp'') (Seq (opt (lit ''e'')) (lit ''g''))) (i, r, cs) \<longleftrightarrow>
     list_all2 (charMatches ic) (js ''jpeg'') r \<or> list_all2 (charMatches ic) (js ''jpg'') r"
proof -
  let ?st = "(i + length ''jp'', drop (length ''jp'') r, cs)"
  have "finishes ic (Seq (lit ''jp'') (Seq (opt (lit ''e'')) (lit ''g''))) (i, r, cs) \<longleftrightarrow>
      matchesAt ic (js ''jp'') r \<and> finishes ic (Seq (opt (lit ''e'')) (lit ''g'')) ?st"
    by (rule finishes_lit_Seq)
  also have "finishes ic (Seq (opt (lit ''e'')) (lit ''g'')) ?st \<longleftrightarrow>
      finishes ic (Seq (lit ''e'') (lit ''g'')) ?st \<or> finishes ic (lit ''g'') ?st"
    by (rule finishes_opt_Seq)
  also have "finishes ic (Seq (lit ''e'') (lit ''g'')) ?st \<longleftrightarrow>
      list_all2 (charMatches ic) (js (''e'' @ ''g'')) (drop (length ''jp'') r)"
    by (rule finishes_lit_lit)
  also have "finishes ic (lit ''g'') ?st \<longleftrightarrow>
      list_all2 (charMatches ic) (js ''g'') (drop (length ''jp'') r)"
    by (rule finishes_lit)
  finally have "finishes ic (Seq (lit ''jp'') (Seq (opt (lit ''e'')) (lit ''g''))) (i, r, cs) \<longleftrightarrow>
      matchesAt ic (js ''jp'') r \<and>
        (list_all2 (charMatches ic) (js (''e'' @ ''g'')) (drop (length ''jp'') r)
         \<or> list_all2 (charMatches ic) (js ''g'') (drop (length ''jp'') r))" .
  also have "\<dots> \<longleftrightarrow> list_all2 (charMatches ic) (js (''jp'' @ ''e'' @ ''g'')) r
       \<or> list_all2 (charMatches ic) (js (''jp'' @ ''g'')) r"
    using prefix_all [of ic "''jp''" r "''e'' @ ''g''"] prefix_all [of ic "''jp''" r "''g''"]
    by blast
  finally show ?thesis by simp
qed

lemma dot_prefix:
  "matchesAt ic (js ''.'') r \<and> list_all2 (charMatches ic) (js w) (drop (length ''.'') r) \<longleftrightarrow>
     list_all2 (charMatches ic) (46 # js w) r"
  using prefix_all [of ic "''.''" r w] by (simp add: js_def)

lemma imageExt_ends:
  "ends ic imageExt (i, r, cs) \<noteq> [] \<longleftrightarrow>
     list_ex (\<lambda>e. list_all2 (charMatches ic) (46 # e) r) imageExtensions"
proof -
  let ?P = "\<lambda>w. list_all2 (charMatches ic) (js w) (drop (length ''.'') r)"
  have "ends ic imageExt (i, r, cs) \<noteq> [] \<longleftrightarrow>
      matchesAt ic (js ''.'') r \<and>
        (?P ''png'' \<or> (?P ''jpeg'' \<or> ?P ''jpg'') \<or> ?P ''gif'' \<or> ?P ''webp''
          \<or> ?P ''bmp'' \<or> ?P ''svg'' \<or> ?P ''pdf'')"
    by (simp only: imageExt_def ends_lit_Seq_nonempty ends_Group_Eol_nonempty finishes_Alt
          finishes_lit finishes_jpeg)
  also have "\<dots> \<longleftrightarrow> list_ex (\<lambda>e. list_all2 (charMatches ic) (46 # e) r) imageExtensions"
    using dot_prefix [of ic r "''png''"] dot_prefix [of ic r "''jpeg''"]
      dot_prefix [of ic r "''jpg''"] dot_prefix [of ic r "''gif''"]
      dot_prefix [of ic r "''webp''"] dot_prefix [of ic r "''bmp''"]
      dot_prefix [of ic r "''svg''"] dot_prefix [of ic r "''pdf''"]
    unfolding imageExtensions_def by (simp only: list.map list_ex_Cons_iff list_ex_Nil_iff) blast
  finally show ?thesis .
qed

lemma folderImageExt_ends:
  "ends ic folderImageExt (i, r, cs) \<noteq> [] \<longleftrightarrow>
     list_ex (\<lambda>e. list_all2 (charMatches ic) (46 # e) r) folderExtensions"
proof -
  let ?P = "\<lambda>w. list_all2 (charMatches ic) (js w) (drop (length ''.'') r)"
  have "ends ic folderImageExt (i, r, cs) \<noteq> [] \<longleftrightarrow>
      matchesAt ic (js ''.'') r \<and>
        (?P ''png'' \<or> (?P ''jpeg'' \<or> ?P ''jpg'') \<or> ?P ''webp'' \<or> ?P ''gif''
          \<or> ?P ''bmp'' \<or> ?P ''svg'')"
    by (simp only: folderImageExt_def ends_lit_Seq_nonempty ends_Group_Eol_nonempty finishes_Alt
          finishes_lit finishes_jpeg)
  also have "\<dots> \<longleftrightarrow> list_ex (\<lambda>e. list_all2 (charMatches ic) (46 # e) r) folderExtensions"
    using dot_prefix [of ic r "''png''"] dot_prefix [of ic r "''jpeg''"]
      dot_prefix [of ic r "''jpg''"] dot_prefix [of ic r "''gif''"]
      dot_prefix [of ic r "''webp''"] dot_prefix [of ic r "''bmp''"]
      dot_prefix [of ic r "''svg''"]
    unfolding folderExtensions_def by (simp only: list.map list_ex_Cons_iff list_ex_Nil_iff) blast
  finally show ?thesis .
qed

lemma regexTest_extensions:
  assumes ends: "\<And>i r cs. ends True pat (i, r, cs) \<noteq> [] \<longleftrightarrow>
                   list_ex (\<lambda>e. list_all2 (charMatches True) (46 # e) r) exts"
    and lower: "list_all (\<lambda>e. list_all notUpper (46 # e)) exts"
  shows "regexTest True pat s \<longleftrightarrow> list_ex (\<lambda>e. endsWithIgnoringCase s (46 # e)) exts"
proof -
  have "regexTest True pat s \<longleftrightarrow>
      (\<exists>i \<le> length s. \<exists>e \<in> set exts. list_all2 (charMatches True) (46 # e) (drop i s))"
    by (simp add: regexTest_iff ends list_ex_iff)
  also have "\<dots> \<longleftrightarrow> (\<exists>e \<in> set exts. \<exists>i \<le> length s. toLowerCase (drop i s) = 46 # e)"
  proof -
    have eq: "list_all2 (charMatches True) (46 # e) t \<longleftrightarrow> toLowerCase t = 46 # e"
      if "e \<in> set exts" for e t
    proof -
      from lower that have "list_all notUpper (46 # e)"
        by (simp add: list_all_iff)
      then show ?thesis by (rule list_all2_charMatches_lower)
    qed
    then show ?thesis by blast
  qed
  also have "\<dots> \<longleftrightarrow> list_ex (\<lambda>e. endsWithIgnoringCase s (46 # e)) exts"
    by (simp add: exists_drop_lower list_ex_iff)
  finally show ?thesis .
qed

lemma isImage_iff:
  "isImage l \<longleftrightarrow> list_ex (\<lambda>e. endsWithIgnoringCase l (46 # e)) imageExtensions"
  unfolding isImage_def
  by (rule regexTest_extensions [OF imageExt_ends])
     (simp add: imageExtensions_def js_def notUpper_def)

lemma folderImage_iff:
  "regexTest True folderImageExt n \<longleftrightarrow>
     list_ex (\<lambda>e. endsWithIgnoringCase n (46 # e)) folderExtensions"
  by (rule regexTest_extensions [OF folderImageExt_ends])
     (simp add: folderExtensions_def js_def notUpper_def)

lemma splitLast_append:
  assumes "sep \<notin> set t"
  shows "splitLast sep (pre @ sep # t) = t"
proof -
  have "takeWhile (\<lambda>c. c \<noteq> sep) (rev t @ sep # rev pre) = rev t @ takeWhile (\<lambda>c. c \<noteq> sep) (sep # rev pre)"
    using assms by (intro takeWhile_append2) auto
  then show ?thesis
    by (simp add: splitLast_def)
qed

lemma toLowerCase_dot:
  "46 \<in> set (toLowerCase t) \<longleftrightarrow> 46 \<in> set t"
proof (induction t)
  case Nil
  then show ?case by (simp add: toLowerCase_def)
next
  case (Cons c t)
  then show ?case by (auto simp: toLowerCase_def)
qed

lemma endsWith_extension:
  assumes "46 \<notin> set e"
  shows "endsWithIgnoringCase l (46 # e) \<longleftrightarrow> (46 \<in> set l \<and> toLowerCase (splitLast 46 l) = e)"
proof
  assume a: "endsWithIgnoringCase l (46 # e)"
  let ?k = "length l - length (46 # e)"
  from a have low: "toLowerCase (drop ?k l) = 46 # e"
    by (simp add: endsWithIgnoringCase_def)
  then obtain c t where ct: "drop ?k l = c # t"
    and c': "(if 65 \<le> c \<and> c \<le> 90 then c + 32 else c) = 46"
    and t: "toLowerCase t = e"
    unfolding toLowerCase_def map_eq_Cons_conv by blast
  from c' have c: "c = 46"
    by (cases "65 \<le> c \<and> c \<le> 90") simp_all
  from t assms have nodot: "46 \<notin> set t"
    using toLowerCase_dot [of t] by simp
  have "take ?k l @ drop ?k l = l" by (rule append_take_drop_id)
  with ct c have l: "l = take ?k l @ 46 # t" by simp
  have "splitLast 46 (take ?k l @ 46 # t) = t"
    using nodot by (rule splitLast_append)
  with l have sl: "splitLast 46 l = t" by simp
  have "46 \<in> set (take ?k l @ 46 # t)" by simp
  with l have "46 \<in> set l" by simp
  with sl t show "46 \<in> set l \<and> toLowerCase (splitLast 46 l) = e"
    by simp
next
  assume a: "46 \<in> set l \<and> toLowerCase (splitLast 46 l) = e"
  then have "46 \<in> set l" by simp
  from split_list_last [OF this] obtain pre t where l: "l = pre @ 46 # t" and nodot: "46 \<notin> set t"
    by blast
  from a l nodot have t: "toLowerCase t = e" by (simp add: splitLast_append)
  have "length (toLowerCase t) = length t" by simp
  with t have "length t = length e" by simp
  with l t show "endsWithIgnoringCase l (46 # e)"
    by (simp add: endsWithIgnoringCase_def toLowerCase_def)
qed

lemma hasImageExtension_iff:
  "hasImageExtension l \<longleftrightarrow> list_ex (\<lambda>e. endsWithIgnoringCase l (46 # e)) imageExtensions"
proof -
  have nodot: "46 \<notin> set e" if "e \<in> set imageExtensions" for e
    using that by (auto simp: imageExtensions_def js_def)
  have ext: "endsWithIgnoringCase l (46 # e) \<longleftrightarrow> (46 \<in> set l \<and> toLowerCase (splitLast 46 l) = e)"
    if "e \<in> set imageExtensions" for e
    using nodot [OF that] by (rule endsWith_extension)
  show ?thesis
  proof (cases "46 \<in> set l")
    case True
    then have "hasImageExtension l \<longleftrightarrow> toLowerCase (splitLast 46 l) \<in> set imageExtensions"
      by (simp add: hasImageExtension_def extensionOf_def)
    also have "\<dots> \<longleftrightarrow> (\<exists>e \<in> set imageExtensions. endsWithIgnoringCase l (46 # e))"
      using ext True by blast
    finally show ?thesis by (simp add: list_ex_iff)
  next
    case False
    then have "\<not> hasImageExtension l"
      by (simp add: hasImageExtension_def extensionOf_def)
    moreover from False ext have "\<not> (\<exists>e \<in> set imageExtensions. endsWithIgnoringCase l (46 # e))"
      by blast
    ultimately show ?thesis by (simp add: list_ex_iff)
  qed
qed

lemma wikiEmbedIn_isImage: "wikiEmbedIn t = Some e \<Longrightarrow> isImage (link e)"
  unfolding wikiEmbedIn_def Let_def
  by (cases "regexMatch False wikiEmbedPattern t") (auto split: if_splits)

lemma markdownEmbedIn_isImage: "markdownEmbedIn t = Some e \<Longrightarrow> isImage (link e)"
  unfolding markdownEmbedIn_def Let_def
  by (cases "regexMatch False markdownEmbedPattern t") (auto split: if_splits)

lemma embedIn_isImage: "embedIn t = Some e \<Longrightarrow> isImage (link e)"
  unfolding embedIn_def
  by (cases "wikiEmbedIn t") (auto dest: wikiEmbedIn_isImage markdownEmbedIn_isImage)

lemma scanLines_isImage: "scanLines lineAt i = Some e \<Longrightarrow> isImage (link e)"
proof (induction i)
  case 0
  then show ?case by (auto dest: embedIn_isImage)
next
  case (Suc i)
  then show ?case
    by (cases "embedIn (lineAt (Suc i))") (auto dest: embedIn_isImage)
qed

lemma findRelevantImageEmbed_isImage:
  "findRelevantImageEmbed editor = Some e \<Longrightarrow> isImage (link e)"
  unfolding findRelevantImageEmbed_def
  by (cases "embedIn (getSelection editor)") (auto dest: embedIn_isImage scanLines_isImage)

section \<open>The extension filters\<close>

lemma toLowerCase_drop: "toLowerCase (drop k s) = drop k (toLowerCase s)"
  by (simp add: toLowerCase_def drop_map)

lemma endsWith_two:
  assumes "endsWithIgnoringCase s w1" and "endsWithIgnoringCase s w2"
    and "length w1 \<le> length w2"
  shows "w1 = drop (length w2 - length w1) w2"
proof -
  from assms have len: "length w2 \<le> length s"
    and w1: "toLowerCase (drop (length s - length w1) s) = w1"
    and w2: "toLowerCase (drop (length s - length w2) s) = w2"
    by (simp_all add: endsWithIgnoringCase_def)
  have "toLowerCase (drop (length w2 - length w1) (drop (length s - length w2) s))
      = drop (length w2 - length w1) (toLowerCase (drop (length s - length w2) s))"
    by (rule toLowerCase_drop)
  also have "\<dots> = drop (length w2 - length w1) w2"
    by (simp only: w2)
  finally have "drop (length w2 - length w1) w2
      = toLowerCase (drop (length w2 - length w1) (drop (length s - length w2) s))"
    by simp
  also have "\<dots> = toLowerCase (drop (length s - length w1) s)"
    using len assms(3) by simp
  finally show ?thesis using w1 by simp
qed

lemma pdf_not_folder_image:
  assumes "endsWithIgnoringCase n (js ''.pdf'')"
  shows "\<not> list_ex (\<lambda>e. endsWithIgnoringCase n (46 # e)) folderExtensions"
proof
  assume "list_ex (\<lambda>e. endsWithIgnoringCase n (46 # e)) folderExtensions"
  then obtain e where e: "e \<in> set folderExtensions" and w: "endsWithIgnoringCase n (46 # e)"
    by (auto simp: list_ex_iff)
  from e have len: "length (js ''.pdf'') \<le> length (46 # e)"
    by (auto simp: folderExtensions_def js_def)
  from endsWith_two [OF assms w len] e show False
    by (auto simp: folderExtensions_def js_def)
qed

lemma imageFiles_names:
  "map File.name (imageFiles files) =
     filter (\<lambda>n. list_ex (\<lambda>e. endsWithIgnoringCase n (46 # e)) folderExtensions)
            (map File.name files)"
  by (simp add: imageFiles_def filter_map comp_def folderImage_iff)

text \<open>
  C10. A selected file is in the folder batch exactly when its name ends, ignoring case,
  with a dot and one of png, jpg, jpeg, webp, gif, bmp, svg; the names of the prepared
  batch are the selected names that do, in order; and a file whose name ends in
  \<open>.pdf\<close> is never in the batch.
\<close>

theorem folder_batch_filter:
  "(f \<in> set (imageFiles files) \<longleftrightarrow>
      f \<in> set files
      \<and> list_ex (\<lambda>e. endsWithIgnoringCase (File.name f) (46 # e)) folderExtensions)
   \<and> map PreparedImage.name (preparedBatch v files) =
       filter (\<lambda>n. list_ex (\<lambda>e. endsWithIgnoringCase n (46 # e)) folderExtensions)
              (map File.name files)
   \<and> (endsWithIgnoringCase (File.name f) (js ''.pdf'') \<longrightarrow> f \<notin> set (imageFiles files))"
proof (intro conjI impI)
  show "f \<in> set (imageFiles files) \<longleftrightarrow>
      f \<in> set files
      \<and> list_ex (\<lambda>e. endsWithIgnoringCase (File.name f) (46 # e)) folderExtensions"
    by (simp add: imageFiles_def folderImage_iff)
next
  have "map PreparedImage.name (preparedBatch v files) = map File.name (imageFiles files)"
    by (simp add: preparedBatch_def preparedOfFile_def Let_def comp_def)
  then show "map PreparedImage.name (preparedBatch v files) =
       filter (\<lambda>n. list_ex (\<lambda>e. endsWithIgnoringCase n (46 # e)) folderExtensions)
              (map File.name files)"
    by (simp only: imageFiles_names)
next
  assume "endsWithIgnoringCase (File.name f) (js ''.pdf'')"
  then have "\<not> list_ex (\<lambda>e. endsWithIgnoringCase (File.name f) (46 # e)) folderExtensions"
    by (rule pdf_not_folder_image)
  then show "f \<notin> set (imageFiles files)"
    by (simp add: imageFiles_def folderImage_iff)
qed

theorem folder_batch_filter_witness:
  "exampleFiles ! 0 \<in> set (imageFiles exampleFiles)
   \<and> exampleFiles ! 1 \<notin> set (imageFiles exampleFiles)
   \<and> map PreparedImage.name (preparedBatch exampleVault exampleFiles) = [js ''a.PNG'']"
proof (intro conjI)
  have "list_ex (\<lambda>e. endsWithIgnoringCase (File.name (exampleFiles ! 0)) (46 # e)) folderExtensions"
    by (simp add: exampleFiles_def folderExtensions_def endsWithIgnoringCase_def js_def
                  toLowerCase_def)
  with folder_batch_filter [of "exampleFiles ! 0" exampleFiles exampleVault]
  show "exampleFiles ! 0 \<in> set (imageFiles exampleFiles)"
    by (simp add: exampleFiles_def)
next
  have "endsWithIgnoringCase (File.name (exampleFiles ! 1)) (js ''.pdf'')"
    by (simp add: exampleFiles_def endsWithIgnoringCase_def js_def toLowerCase_def)
  with folder_batch_filter [of "exampleFiles ! 1" exampleFiles exampleVault]
  show "exampleFiles ! 1 \<notin> set (imageFiles exampleFiles)"
    by blast
next
  have "filter (\<lambda>n. list_ex (\<lambda>e. endsWithIgnoringCase n (46 # e)) folderExtensions)
              (map File.name exampleFiles) = [js ''a.PNG'']"
    by (simp add: exampleFiles_def folderExtensions_def endsWithIgnoringCase_def js_def
                  toLowerCase_def)
  with folder_batch_filter [of "exampleFiles ! 0" exampleFiles exampleVault]
  show "map PreparedImage.name (preparedBatch exampleVault exampleFiles) = [js ''a.PNG'']"
    by simp
qed

text \<open>
  C9. \<open>isImage\<close> holds for a link exactly when the link has an extension (the text
  after its last dot) that, lowered, is one of png, jpg, jpeg, gif, webp, bmp, svg, pdf;
  and every result of \<open>findRelevantImageEmbed\<close> has such a link.
\<close>

theorem isImage_extension_filter:
  "(isImage l \<longleftrightarrow> hasImageExtension l)
   \<and> (\<forall>e. findRelevantImageEmbed editor = Some e \<longrightarrow> hasImageExtension (link e))"
  using findRelevantImageEmbed_isImage [of editor]
  by (simp add: isImage_iff hasImageExtension_iff)

section \<open>The embedded-image command\<close>

lemma wiki_diagram_ends:
  "ends False wikiEmbedPattern (0, diagramSelection, []) =
     [(16, [], [(1, js ''diagram.png'')])]"
  by (simp add: wikiEmbedPattern_def ends_lit lazyPlus_def ends.simps(9) js_def matchesAt_Cons
                charMatches_def isLineTerminator_def diagramSelection_def)

lemma wiki_diagram:
  "regexMatch False wikiEmbedPattern diagramSelection =
     Some \<lparr>index = 0, matched = diagramSelection, endIndex = 16,
           captures = [(1, js ''diagram.png'')]\<rparr>"
  unfolding regexMatch_def
  by (subst regexExec.simps) (simp add: wiki_diagram_ends, simp add: diagramSelection_def js_def)

lemma anyWiki_diagram_ends:
  "ends False anyWikiEmbedPattern (0, diagramSelection, []) = [(16, [], [])]"
  by (simp add: anyWikiEmbedPattern_def ends_lit ends.simps(9) js_def matchesAt_Cons
                charMatches_def isLineTerminator_def diagramSelection_def)

lemma selectionEmbedMatch_diagram:
  "selectionEmbedMatch diagramSelection =
     Some \<lparr>index = 0, matched = diagramSelection, endIndex = 16, captures = []\<rparr>"
  unfolding selectionEmbedMatch_def regexMatch_def
  by (subst regexExec.simps) (simp add: anyWiki_diagram_ends, simp add: diagramSelection_def js_def)

lemma isImage_diagram: "isImage (js ''diagram.png'')"
  by (simp add: isImage_iff imageExtensions_def endsWithIgnoringCase_def toLowerCase_def js_def)

lemma not_isPdfFile_diagram: "\<not> isPdfFile (js ''diagram.png'')"
  by (simp add: isPdfFile_iff endsWithIgnoringCase_def toLowerCase_def js_def)

lemma embedIn_diagram:
  "embedIn diagramSelection =
     Some \<lparr>link = js ''diagram.png'', isExternal = False, embedType = Internal,
           embedText = diagramSelection\<rparr>"
proof -
  have "trim (splitFirst 124 (js ''diagram.png'')) = js ''diagram.png''"
    by (simp add: trim_def splitFirst_def js_def isWhiteSpace_def)
  then show ?thesis
    by (simp add: embedIn_def wikiEmbedIn_def wiki_diagram capture_def Let_def isImage_diagram)
qed

text \<open>
  C8. The selection is exactly \<open>![[diagram.png]]\<close>; the link resolves to a file, whose
  bytes are read and are those of an image (they do not start with \<open>%PDF-\<close>); a provider
  is configured and answers "Hello world". Then the command does one thing: it replaces
  the selection by "Hello world". The header and footer templates play no part on this
  path, whatever they are.
\<close>

theorem embedded_selection_replaced:
  assumes sel: "getSelection editor = js ''![[diagram.png]]''"
    and found: "getFirstLinkpathDest p (js ''diagram.png'') = Some f"
    and read: "readBinary (theVault p) f = Inr arrayBuffer"
    and notpdf: "\<not> isPdfBuffer arrayBuffer"
    and configured: "getProvider (settings p) (friendlyProviderName p) = Returns prov"
    and answer: "extractTextFromBase64 p prov (arrayBufferToBase64 arrayBuffer)
                   = Inr (Some (js ''Hello world''))"
  shows "extractTextFromEmbeddedImage p editor = [ReplaceSelection (js ''Hello world'')]"
proof -
  let ?e = "\<lparr>link = js ''diagram.png'', isExternal = False, embedType = Internal,
              embedText = diagramSelection\<rparr>"
  from sel have sel': "getSelection editor = diagramSelection"
    by (simp add: diagramSelection_def)
  then have "findRelevantImageEmbed editor = Some ?e"
    by (simp add: findRelevantImageEmbed_def embedIn_diagram)
  then have located: "locateEmbed p editor = Some ?e"
    by (simp add: locateEmbed_def)
  have bytes: "readEmbed p ?e = Inr arrayBuffer"
    using found read by (simp add: readEmbed_def)
  have nonempty: "js ''Hello world'' \<noteq> []"
    by (simp add: js_def)
  have "extractFromImage p editor arrayBuffer = [ReplaceSelection (js ''Hello world'')]"
    using sel' configured answer nonempty
    by (simp add: extractFromImage_def Let_def selectionEmbedMatch_diagram)
  with located bytes notpdf show ?thesis
    by (simp add: extractTextFromEmbeddedImage_def not_isPdfFile_diagram)
qed

theorem embedded_selection_replaced_witness:
  "extractTextFromEmbeddedImage examplePlugin exampleEditor
     = [ReplaceSelection (js ''Hello world'')]"
proof (rule embedded_selection_replaced)
  show "getSelection exampleEditor = js ''![[diagram.png]]''"
    by (simp add: exampleEditor_def)
  show "getFirstLinkpathDest examplePlugin (js ''diagram.png'')
          = Some \<lparr>path = js ''diagram.png'', TFile.name = js ''diagram.png''\<rparr>"
    by (simp add: examplePlugin_def)
  show "readBinary (theVault examplePlugin)
          \<lparr>path = js ''diagram.png'', TFile.name = js ''diagram.png''\<rparr> = Inr [1, 2, 3]"
    by (simp add: examplePlugin_def exampleVault_def js_def)
  show "\<not> isPdfBuffer [1, 2, 3]"
    by (simp add: isPdfBuffer_def binaryString_def js_def)
  show "getProvider (settings examplePlugin) (friendlyProviderName examplePlugin)
          = Returns (OpenAIProvider [] (js ''gpt-4o'')
                       (js ''https://api.openai.com/v1/chat/completions'') (js ''openai'')
                       DEFAULT_PROMPT_TEXT (Some (js ''OpenAI'')))"
    by (simp add: examplePlugin_def DEFAULT_SETTINGS_def getProvider_def getProperty_def
                  factories_def Let_def orElse_def trim_def js_def DEFAULT_PROMPT_TEXT_def)
  show "extractTextFromBase64 examplePlugin
          (OpenAIProvider [] (js ''gpt-4o'')
             (js ''https://api.openai.com/v1/chat/completions'') (js ''openai'')
             DEFAULT_PROMPT_TEXT (Some (js ''OpenAI'')))
          (arrayBufferToBase64 [1, 2, 3]) = Inr (Some (js ''Hello world''))"
    by (simp add: examplePlugin_def)
qed

lemma processPdfFile_loads:
  "GetDocument b \<in> set (processPdfFile p arrayBuffer l) \<longleftrightarrow> b = arrayBuffer"
  by (auto simp: processPdfFile_def
           split: sum.splits error.splits provider_outcome.splits if_splits)

lemma extractFromImage_no_load:
  "GetDocument b \<notin> set (extractFromImage p editor arrayBuffer)"
  by (auto simp: extractFromImage_def Let_def
           split: sum.splits option.splits provider_outcome.splits if_splits)

lemma readEmbed_no_load:
  "readEmbed p e = Inl effects \<Longrightarrow> GetDocument b \<notin> set effects"
  by (auto simp: readEmbed_def split: sum.splits option.splits if_splits)

lemma wiki_scan_ends:
  "ends False wikiEmbedPattern (0, js ''![[scan.pdf]]'', []) =
     [(13, [], [(1, js ''scan.pdf'')])]"
  by (simp add: wikiEmbedPattern_def ends_lit lazyPlus_def ends.simps(9) js_def matchesAt_Cons
                charMatches_def isLineTerminator_def)

lemma wiki_scan:
  "regexMatch False wikiEmbedPattern (js ''![[scan.pdf]]'') =
     Some \<lparr>index = 0, matched = js ''![[scan.pdf]]'', endIndex = 13,
           captures = [(1, js ''scan.pdf'')]\<rparr>"
  unfolding regexMatch_def
  by (subst regexExec.simps) (simp add: wiki_scan_ends, simp add: js_def)

lemma locate_scan:
  "locateEmbed examplePlugin pdfLinkEditor =
     Some \<lparr>link = js ''scan.pdf'', isExternal = False, embedType = Internal,
           embedText = js ''![[scan.pdf]]''\<rparr>"
proof -
  have "trim (splitFirst 124 (js ''scan.pdf'')) = js ''scan.pdf''"
    by (simp add: trim_def splitFirst_def js_def isWhiteSpace_def)
  moreover have "isImage (js ''scan.pdf'')"
    by (simp add: isImage_iff imageExtensions_def endsWithIgnoringCase_def toLowerCase_def js_def)
  ultimately show ?thesis
    by (simp add: locateEmbed_def findRelevantImageEmbed_def pdfLinkEditor_def embedIn_def
                  wikiEmbedIn_def wiki_scan capture_def Let_def)
qed

lemma read_scan:
  "readEmbed examplePlugin
     \<lparr>link = js ''scan.pdf'', isExternal = False, embedType = Internal,
      embedText = js ''![[scan.pdf]]''\<rparr> = Inr [1, 2, 3]"
  by (simp add: readEmbed_def examplePlugin_def exampleVault_def js_def)

text \<open>
  C2, as the code has it. In the embedded-image command the PDF loader is invoked on a
  buffer exactly when the embed was located, its bytes were read, and the link ends in
  \<open>.pdf\<close> or the bytes start with \<open>%PDF-\<close>: the magic bytes widen the detection, they do
  not gate it.
\<close>

theorem pdf_loader_routing:
  "GetDocument b \<in> set (extractTextFromEmbeddedImage p editor) \<longleftrightarrow>
     (\<exists>e. locateEmbed p editor = Some e \<and> readEmbed p e = Inr b
          \<and> (isPdfFile (link e) \<or> isPdfBuffer b))"
proof (cases "locateEmbed p editor")
  case None
  then show ?thesis by (simp add: extractTextFromEmbeddedImage_def)
next
  case (Some e)
  show ?thesis
  proof (cases "readEmbed p e")
    case (Inl effects)
    with Some readEmbed_no_load [OF Inl, of b] show ?thesis
      by (simp add: extractTextFromEmbeddedImage_def)
  next
    case (Inr arrayBuffer)
    show ?thesis
    proof (cases "isPdfFile (link e) \<or> isPdfBuffer arrayBuffer")
      case True
      with Some Inr show ?thesis
        by (auto simp: extractTextFromEmbeddedImage_def processPdfFile_loads)
    next
      case False
      with Some Inr extractFromImage_no_load [of b p editor arrayBuffer] show ?thesis
        by (auto simp: extractTextFromEmbeddedImage_def)
    qed
  qed
qed

theorem pdf_loader_routing_witness:
  "GetDocument [1, 2, 3] \<notin> set (extractTextFromEmbeddedImage examplePlugin exampleEditor)"
proof -
  have "locateEmbed examplePlugin exampleEditor =
     Some \<lparr>link = js ''diagram.png'', isExternal = False, embedType = Internal,
           embedText = diagramSelection\<rparr>"
    by (simp add: locateEmbed_def findRelevantImageEmbed_def exampleEditor_def
                  embedIn_diagram [unfolded diagramSelection_def] diagramSelection_def)
  moreover have "\<not> isPdfBuffer [1, 2, 3]"
    by (simp add: isPdfBuffer_def binaryString_def js_def)
  ultimately show ?thesis
    using pdf_loader_routing [of "[1, 2, 3]" examplePlugin exampleEditor] not_isPdfFile_diagram
    by simp
qed

text \<open>
  C2 as stated fails: the three bytes 1, 2, 3 do not start with \<open>%PDF-\<close>, yet with the
  selection \<open>![[scan.pdf]]\<close> the command hands them to the PDF loader.
\<close>

theorem unchecked_buffer_is_loaded:
  "\<not> isPdfBuffer [1, 2, 3]
   \<and> GetDocument [1, 2, 3] \<in> set (extractTextFromEmbeddedImage examplePlugin pdfLinkEditor)"
proof
  show "\<not> isPdfBuffer [1, 2, 3]"
    by (simp add: isPdfBuffer_def binaryString_def js_def)
  have "isPdfFile (js ''scan.pdf'')"
    by (simp add: isPdfFile_iff endsWithIgnoringCase_def toLowerCase_def js_def)
  with locate_scan read_scan
  show "GetDocument [1, 2, 3] \<in> set (extractTextFromEmbeddedImage examplePlugin pdfLinkEditor)"
    by (simp add: extractTextFromEmbeddedImage_def processPdfFile_def)
qed

text \<open>An instance of C9, on the example editor.\<close>

theorem isImage_extension_filter_witness:
  "isImage (js ''photo.PNG'') \<and> \<not> isImage (js ''notes.txt'')
   \<and> hasImageExtension (js ''diagram.png'')"
proof (intro conjI)
  have "hasImageExtension (js ''photo.PNG'')"
    by (simp add: hasImageExtension_def extensionOf_def splitLast_def toLowerCase_def
                  imageExtensions_def js_def)
  with isImage_extension_filter [of "js ''photo.PNG''" exampleEditor]
  show "isImage (js ''photo.PNG'')" by simp
next
  have "\<not> hasImageExtension (js ''notes.txt'')"
    by (simp add: hasImageExtension_def extensionOf_def splitLast_def toLowerCase_def
                  imageExtensions_def js_def)
  with isImage_extension_filter [of "js ''notes.txt''" exampleEditor]
  show "\<not> isImage (js ''notes.txt'')" by simp
next
  have "findRelevantImageEmbed exampleEditor =
     Some \<lparr>link = js ''diagram.png'', isExternal = False, embedType = Internal,
           embedText = diagramSelection\<rparr>"
    by (simp add: findRelevantImageEmbed_def exampleEditor_def
                  embedIn_diagram [unfolded diagramSelection_def] diagramSelection_def)
  with isImage_extension_filter [of "js ''diagram.png''" exampleEditor]
  show "hasImageExtension (js ''diagram.png'')" by fastforce
qed

section \<open>Base64 round trip\<close>

lemma b64char_cases:
  "(65 \<le> b64char n \<and> b64char n \<le> 90) \<or> (97 \<le> b64char n \<and> b64char n \<le> 122)
   \<or> (48 \<le> b64char n \<and> b64char n \<le> 57) \<or> b64char n = 43 \<or> b64char n = 47"
proof -
  consider "n < 26" | "26 \<le> n \<and> n < 52" | "52 \<le> n \<and> n < 62" | "n = 62" | "62 < n"
    by linarith
  then show ?thesis
  proof cases
    case 1
    then show ?thesis by (simp add: b64char_def)
  next
    case 2
    then show ?thesis by (simp add: b64char_def)
  next
    case 3
    then have "b64char n = 48 + (n - 52)" by (simp add: b64char_def)
    with 3 show ?thesis by linarith
  next
    case 4
    then show ?thesis by (simp add: b64char_def)
  next
    case 5
    then show ?thesis by (simp add: b64char_def)
  qed
qed

lemma b64char_not_pad: "b64char n \<noteq> 61"
  using b64char_cases [of n] by linarith

lemma b64char_not_space: "\<not> isAsciiWhitespace (b64char n)"
  using b64char_cases [of n] unfolding isAsciiWhitespace_def by linarith

lemma b64index_b64char:
  assumes "n < 64"
  shows "b64index (b64char n) = Some n"
proof -
  consider "n < 26" | "26 \<le> n \<and> n < 52" | "52 \<le> n \<and> n < 62" | "n = 62" | "n = 63"
    using assms by linarith
  then show ?thesis
  proof cases
    case 1
    then show ?thesis by (simp add: b64char_def b64index_def)
  next
    case 2
    then have c: "b64char n = 97 + (n - 26)" by (simp add: b64char_def)
    with 2 have "97 \<le> b64char n" "b64char n \<le> 122" "\<not> b64char n \<le> 90" by linarith+
    moreover from c 2 have "b64char n - 97 + 26 = n" by linarith
    ultimately show ?thesis by (simp add: b64index_def)
  next
    case 3
    then have c: "b64char n = 48 + (n - 52)" by (simp add: b64char_def)
    with 3 have "48 \<le> b64char n" "b64char n \<le> 57" "\<not> 65 \<le> b64char n" "\<not> 97 \<le> b64char n"
      by linarith+
    moreover from c 3 have "b64char n - 48 + 52 = n" by linarith
    ultimately show ?thesis by (simp add: b64index_def)
  next
    case 4
    then show ?thesis by (simp add: b64char_def b64index_def)
  next
    case 5
    then show ?thesis by (simp add: b64char_def b64index_def)
  qed
qed

lemma q1: "(a::nat) < 256 \<Longrightarrow> a div 4 < 64"
  by (simp add: div_less_iff_less_mult)

lemma q2: "(b::nat) < 256 \<Longrightarrow> b div 16 < 16"
  by (simp add: div_less_iff_less_mult)

lemma q3: "(c::nat) < 256 \<Longrightarrow> c div 64 < 4"
  by (simp add: div_less_iff_less_mult)

lemma q4: "(x::nat) < 4 \<Longrightarrow> y < 16 \<Longrightarrow> x * 16 + y < 64"
  by linarith

lemma q5: "(x::nat) < 16 \<Longrightarrow> y < 4 \<Longrightarrow> x * 4 + y < 64"
  by linarith

lemma r1: "(y::nat) < 16 \<Longrightarrow> (x * 16 + y) div 16 = x"
  by simp

lemma r2: "(y::nat) < 16 \<Longrightarrow> (x * 16 + y) mod 16 = y"
  by simp

lemma r3: "(y::nat) < 4 \<Longrightarrow> (x * 4 + y) div 4 = x"
  by simp

lemma r4: "(y::nat) < 4 \<Longrightarrow> (x * 4 + y) mod 4 = y"
  by simp

lemma r5: "(x * 16) div 16 = (x::nat)" "(x * 4) div 4 = (x::nat)"
  by simp_all

lemma r6: "(a::nat) div 4 * 4 + a mod 4 = a" "(b::nat) div 16 * 16 + b mod 16 = b"
  "(c::nat) div 64 * 64 + c mod 64 = c"
  by simp_all

lemma encodeGroups_sixes:
  "encodeGroups bs = map b64char (sixes bs) @ replicate (padCount bs) 61"
proof (induction bs rule: sixes.induct)
  case 1
  then show ?case by (simp add: padCount_def)
next
  case (2 a)
  have "padCount [a] = Suc (Suc 0)" by (simp add: padCount_def)
  then show ?case by simp
next
  case (3 a b)
  have "padCount [a, b] = Suc 0" by (simp add: padCount_def)
  then show ?case by simp
next
  case (4 a b c rest)
  have "padCount (a # b # c # rest) = padCount rest"
    by (simp add: padCount_def)
  with 4 show ?case by simp
qed

lemma padCount_le: "padCount bs \<le> 2"
  by (simp add: padCount_def)

lemma sixes_bound: "list_all (\<lambda>b. b < 256) bs \<Longrightarrow> list_all (\<lambda>n. n < 64) (sixes bs)"
proof (induction bs rule: sixes.induct)
  case (4 a b c rest)
  then have a: "a < 256" and b: "b < 256" and c: "c < 256"
    and r: "list_all (\<lambda>n. n < 64) (sixes rest)"
    by simp_all
  have "a mod 4 < 4" "b mod 16 < 16" "c mod 64 < 64" by simp_all
  with q1 [OF a] q2 [OF b] q3 [OF c]
  have "a div 4 < 64" "(a mod 4) * 16 + b div 16 < 64" "(b mod 16) * 4 + c div 64 < 64"
      "c mod 64 < 64"
    by (simp_all add: q4 q5)
  with r show ?case by simp
next
  case (3 a b)
  then have a: "a < 256" and b: "b < 256" by simp_all
  have "a mod 4 < 4" "b mod 16 < 16" by simp_all
  with q1 [OF a] q2 [OF b]
  have "a div 4 < 64" "(a mod 4) * 16 + b div 16 < 64" "(b mod 16) * 4 + 0 < 64"
    by (simp_all add: q4 q5 del: add_0_right)
  then show ?case by simp
next
  case (2 a)
  then have a: "a < 256" by simp
  have "a mod 4 < 4" by simp
  with q1 [OF a] have "a div 4 < 64" "(a mod 4) * 16 + 0 < 64"
    by (simp_all add: q4 del: add_0_right)
  then show ?case by simp
qed simp

lemma sextets_sixes:
  "list_all (\<lambda>n. n < 64) ns \<Longrightarrow> sextets (map b64char ns) = Some ns"
  by (induction ns) (simp_all add: b64index_b64char)

lemma decodeGroups_sixes:
  "list_all (\<lambda>b. b < 256) bs \<Longrightarrow> decodeGroups (sixes bs) = bs"
proof (induction bs rule: sixes.induct)
  case (4 a b c rest)
  then have a: "a < 256" and b: "b < 256" and c: "c < 256"
    and r: "decodeGroups (sixes rest) = rest"
    by simp_all
  have "a div 4 * 4 + ((a mod 4) * 16 + b div 16) div 16 = a"
    using r1 [OF q2 [OF b], of "a mod 4"] by simp
  moreover have "(((a mod 4) * 16 + b div 16) mod 16) * 16 + ((b mod 16) * 4 + c div 64) div 4 = b"
    using r2 [OF q2 [OF b], of "a mod 4"] r3 [OF q3 [OF c], of "b mod 16"] by simp
  moreover have "(((b mod 16) * 4 + c div 64) mod 4) * 64 + c mod 64 = c"
    using r4 [OF q3 [OF c], of "b mod 16"] by simp
  ultimately show ?case using r by simp
next
  case (3 a b)
  then have a: "a < 256" and b: "b < 256" by simp_all
  have "a div 4 * 4 + ((a mod 4) * 16 + b div 16) div 16 = a"
    using r1 [OF q2 [OF b], of "a mod 4"] by simp
  moreover have "(((a mod 4) * 16 + b div 16) mod 16) * 16 + ((b mod 16) * 4) div 4 = b"
    using r2 [OF q2 [OF b], of "a mod 4"] by simp
  ultimately show ?case by simp
next
  case (2 a)
  then show ?case by simp
qed simp

lemma length_sixes_mod: "length (sixes bs) mod 4 \<noteq> 1"
  by (induction bs rule: sixes.induct) simp_all

lemma length_encodeGroups_mod: "length (encodeGroups bs) mod 4 = 0"
  by (induction bs rule: encodeGroups.induct) simp_all

lemma stripPadding_replicate:
  assumes "xs = [] \<or> last xs \<noteq> 61" and "k \<le> 2"
  shows "stripPadding (xs @ replicate k 61) = xs"
proof -
  from assms(2) consider "k = 0" | "k = 1" | "k = 2" by linarith
  then show ?thesis
  proof cases
    case 1
    show ?thesis
    proof (cases xs rule: rev_cases)
      case Nil
      with 1 show ?thesis by (simp add: stripPadding_def)
    next
      case (snoc ys y)
      with assms(1) have "y \<noteq> 61" by simp
      with snoc 1 show ?thesis by (simp add: stripPadding_def)
    qed
  next
    case 2
    show ?thesis
    proof (cases xs rule: rev_cases)
      case Nil
      with 2 show ?thesis by (simp add: stripPadding_def)
    next
      case (snoc ys y)
      with assms(1) have "y \<noteq> 61" by simp
      with snoc 2 show ?thesis by (simp add: stripPadding_def)
    qed
  next
    case 3
    then have "replicate k (61::nat) = [61, 61]" by (simp add: numeral_2_eq_2)
    then show ?thesis by (simp add: stripPadding_def)
  qed
qed

lemma last_sixes_not_pad:
  "map b64char ns = [] \<or> last (map b64char ns) \<noteq> 61"
  by (cases ns rule: rev_cases) (simp_all add: b64char_not_pad)

lemma encodeGroups_no_space:
  "filter (\<lambda>c. \<not> isAsciiWhitespace c) (encodeGroups bs) = encodeGroups bs"
proof -
  have "\<not> isAsciiWhitespace 61" by (simp add: isAsciiWhitespace_def)
  then show ?thesis
    by (simp add: encodeGroups_sixes filter_map comp_def b64char_not_space)
qed

lemma atob_encodeGroups:
  assumes "list_all (\<lambda>b. b < 256) bs"
  shows "atob (encodeGroups bs) = Inr bs"
proof -
  have strip: "stripPadding (encodeGroups bs) = map b64char (sixes bs)"
    unfolding encodeGroups_sixes
    using last_sixes_not_pad padCount_le by (rule stripPadding_replicate)
  have len: "length (map b64char (sixes bs)) mod 4 \<noteq> 1"
    using length_sixes_mod [of bs] by simp
  have six: "sextets (map b64char (sixes bs)) = Some (sixes bs)"
    using sixes_bound [OF assms] by (rule sextets_sixes)
  show ?thesis
    using len six decodeGroups_sixes [OF assms]
    by (simp add: atob_def Let_def encodeGroups_no_space length_encodeGroups_mod strip)
qed

lemma binaryString_bytes: "list_all (\<lambda>b. b < 256) (binaryString buffer)"
proof -
  have "unat b < 256" for b :: byte
    using unsigned_less [of b, where ?'a = nat] by simp
  then show ?thesis by (simp add: binaryString_def list_all_iff)
qed

lemma btoa_binary: "btoa (binaryString buffer) = Inr (arrayBufferToBase64 buffer)"
proof -
  have "\<not> list_ex (\<lambda>c. 255 < c) (binaryString buffer)"
    using binaryString_bytes [of buffer] by (auto simp: list_ex_iff list_all_iff)
  then show ?thesis by (simp add: btoa_def arrayBufferToBase64_def)
qed

lemma base64_roundtrip: "base64ToBytes (arrayBufferToBase64 buffer) = Inr buffer"
proof -
  have "map of_nat (binaryString buffer) = buffer"
    by (simp add: binaryString_def comp_def)
  then show ?thesis
    by (simp add: base64ToBytes_def arrayBufferToBase64_def
                  atob_encodeGroups [OF binaryString_bytes])
qed

lemma str_includes_set: "str_includes s needle \<Longrightarrow> set needle \<subseteq> set s"
proof (induction s)
  case Nil
  then show ?case by simp
next
  case (Cons c cs)
  from Cons.prems consider "take (length needle) (c # cs) = needle" | "str_includes cs needle"
    by auto
  then show ?case
  proof cases
    case 1
    have "set (take (length needle) (c # cs)) \<subseteq> set (c # cs)" by (rule set_take_subset)
    with 1 show ?thesis by simp
  next
    case 2
    with Cons.IH show ?thesis by auto
  qed
qed

lemma encodeGroups_no_semicolon: "59 \<notin> set (encodeGroups bs)"
proof -
  have "b64char n \<noteq> 59" for n
    using b64char_cases [of n] by linarith
  then show ?thesis
    by (auto simp: encodeGroups_sixes)
qed

lemma base64_no_prefix: "\<not> hasDataUrlPrefix (arrayBufferToBase64 buffer)"
proof
  assume "hasDataUrlPrefix (arrayBufferToBase64 buffer)"
  then have "set (js '';base64,'') \<subseteq> set (encodeGroups (binaryString buffer))"
    unfolding hasDataUrlPrefix_def arrayBufferToBase64_def by (rule str_includes_set)
  moreover have "59 \<in> set (js '';base64,'')" by (simp add: js_def)
  ultimately show False using encodeGroups_no_semicolon by blast
qed

lemma matchesAt_self: "matchesAt False w (w @ r)"
  by (simp add: matchesAt_def charMatches_def list_all2_same)

lemma regexExec_anchored_prefix:
  "regexExec False (Seq Bol (lit w)) (js w @ r) 0 =
     Some \<lparr>index = 0, matched = js w, endIndex = length w, captures = []\<rparr>"
proof -
  have "ends False (Seq Bol (lit w)) (0, js w @ r, []) = [(length w, r, [])]"
    using matchesAt_self [of "js w" r] by (simp add: ends_lit js_def)
  then show ?thesis
    by (subst regexExec.simps) (simp add: js_def)
qed

lemma regexExec_anchored_none:
  assumes "\<not> matchesAt False (js w) s"
  shows "regexExec False (Seq Bol (lit w)) s 0 = None"
proof -
  have "ends False (Seq Bol (lit w)) (i, drop i s, []) = []" for i
    using assms by (cases "i = 0") (simp_all add: ends_lit)
  then show ?thesis by (simp add: regexExec_None_iff)
qed

lemma strip_png_prefix:
  "replaceFirstWithEmpty False pngPrefixPattern (pngDataUrlPrefix @ b64) = b64"
  unfolding replaceFirstWithEmpty_def pngPrefixPattern_def pngDataUrlPrefix_def
  by (simp add: regexExec_anchored_prefix) (simp add: js_def)

lemma strip_png_prefix_empty_canvas:
  "replaceFirstWithEmpty False pngPrefixPattern (js ''data:,'') = js ''data:,''"
proof -
  have "\<not> matchesAt False (js ''data:image/png;base64,'') (js ''data:,'')"
    by (simp add: matchesAt_def js_def)
  then show ?thesis
    by (simp add: replaceFirstWithEmpty_def pngPrefixPattern_def regexExec_anchored_none)
qed

lemma encodeGroups_no_colon: "58 \<notin> set (encodeGroups bs)"
proof -
  have "b64char n \<noteq> 58" for n
    using b64char_cases [of n] by linarith
  then show ?thesis
    by (auto simp: encodeGroups_sixes)
qed

lemma base64_no_data_url_prefix: "\<not> carriesDataUrlPrefix (arrayBufferToBase64 buffer)"
proof
  assume "carriesDataUrlPrefix (arrayBufferToBase64 buffer)"
  then have "take 5 (encodeGroups (binaryString buffer)) = js ''data:''"
    by (simp add: carriesDataUrlPrefix_def arrayBufferToBase64_def)
  moreover have "58 \<in> set (js ''data:'')" by (simp add: js_def)
  ultimately have "58 \<in> set (take 5 (encodeGroups (binaryString buffer)))" by simp
  then have "58 \<in> set (encodeGroups (binaryString buffer))" by (rule in_set_takeD)
  then show False using encodeGroups_no_colon by blast
qed

text \<open>
  What the page loop stores as \<open>base64\<close>: the base64 of the PNG file when the canvas has
  pixels, and the data URL \<open>data:,\<close> itself when it has none, because the pattern of the
  \<open>replace\<close> does not match it.
\<close>

lemma stored_page_base64:
  "replaceFirstWithEmpty False pngPrefixPattern (toDataURL png) =
     (case png of None \<Rightarrow> js ''data:,'' | Some pngFile \<Rightarrow> arrayBufferToBase64 pngFile)"
  by (cases png) (simp_all add: toDataURL_def strip_png_prefix strip_png_prefix_empty_canvas)

lemma renderPages_stored:
  "list_all (\<lambda>page. \<exists>png w h. renderPage pdf (pageNumber page) scale = Rendered png w h
       \<and> PDFPageImage.base64 page =
           (case png of None \<Rightarrow> js ''data:,'' | Some pngFile \<Rightarrow> arrayBufferToBase64 pngFile))
     images \<Longrightarrow>
   list_all (\<lambda>page. \<exists>png w h. renderPage pdf (pageNumber page) scale = Rendered png w h
       \<and> PDFPageImage.base64 page =
           (case png of None \<Rightarrow> js ''data:,'' | Some pngFile \<Rightarrow> arrayBufferToBase64 pngFile))
     (renderPages pdf scale pagesToProcess pageNum images)"
proof (induction pdf scale pagesToProcess pageNum images rule: renderPages.induct)
  case (1 pdf scale pagesToProcess pageNum images)
  show ?case
  proof (cases "pageNum \<le> pagesToProcess")
    case False
    with "1.prems" show ?thesis by (simp add: renderPages_done)
  next
    case True
    show ?thesis
    proof (cases "renderPage pdf pageNum scale")
      case PageThrows
      with True "1.IH"(1) "1.prems" show ?thesis
        by (subst renderPages.simps) simp
    next
      case NoCanvasContext
      with True "1.IH"(2) "1.prems" show ?thesis
        by (subst renderPages.simps) simp
    next
      case (Rendered png w h)
      let ?page = "\<lparr>pageNumber = pageNum,
          PDFPageImage.base64 = replaceFirstWithEmpty False pngPrefixPattern (toDataURL png),
          PDFPageImage.width = w, PDFPageImage.height = h\<rparr>"
      have "list_all (\<lambda>page. \<exists>png w h. renderPage pdf (pageNumber page) scale = Rendered png w h
               \<and> PDFPageImage.base64 page =
                   (case png of None \<Rightarrow> js ''data:,''
                    | Some pngFile \<Rightarrow> arrayBufferToBase64 pngFile))
             (images @ [?page])"
        using "1.prems" Rendered by (simp add: stored_page_base64)
      from "1.IH"(3) [OF True Rendered refl refl this] True Rendered show ?thesis
        by (subst renderPages.simps) (simp add: Let_def)
    qed
  qed
qed

text \<open>
  Every page image that \<open>convertPdfToImages\<close> returns is that of a page that was
  drawn. When its canvas had pixels, the stored base64 is the base64 of the PNG file: it
  carries no data-URL prefix and decodes to the file. When the canvas had none, the
  stored string is \<open>data:,\<close>.
\<close>

lemma convertPdfToImages_stored:
  assumes "load buffer = Loaded pdf"
  shows "\<exists>images. convertPdfToImages load buffer scale maxPages = Inr images
     \<and> list_all (\<lambda>page. \<exists>png w h. renderPage pdf (pageNumber page) scale = Rendered png w h
           \<and> PDFPageImage.base64 page =
               (case png of None \<Rightarrow> js ''data:,''
                | Some pngFile \<Rightarrow> arrayBufferToBase64 pngFile))
         images"
  using assms renderPages_stored [of pdf scale "[]" "min (int (numPages pdf)) maxPages" 1]
  by (simp add: convertPdfToImages_def Let_def)

text \<open>
  A \<open>PreparedImage\<close> that \<open>prepareImagePayload\<close> returns has base64 data that decodes
  (as \<open>saveBase64ImageToVault\<close> decodes it) to a buffer of exactly \<open>size\<close> bytes, and
  the data carry no data-URL prefix, neither by the specification's reading nor by the
  test of \<open>saveBase64ImageToVault\<close>.
\<close>

lemma prepared_base64_decodes:
  assumes "prepareImagePayload v img = Inr (Some prepared)"
  shows "(\<exists>buffer. base64ToBytes (PreparedImage.base64 prepared) = Inr buffer
                \<and> size' prepared = length buffer)
         \<and> \<not> carriesDataUrlPrefix (PreparedImage.base64 prepared)
         \<and> \<not> hasDataUrlPrefix (PreparedImage.base64 prepared)"
proof -
  from assms obtain arrayBuffer fileName
    where prepared: "prepared = preparedFrom v img arrayBuffer fileName"
    by (auto simp: prepareImagePayload_def prepareImagePayloadTry_def
             split: sum.splits option.splits if_splits)
  then have b: "PreparedImage.base64 prepared = arrayBufferToBase64 arrayBuffer"
    and s: "size' prepared = length arrayBuffer"
    by (simp_all add: preparedFrom_def Let_def)
  from b s show ?thesis
    by (simp add: base64_roundtrip base64_no_data_url_prefix base64_no_prefix)
qed

text \<open>
  C7. The half of the claim about rasterized pages fails. For a page whose canvas has no
  pixels, \<open>canvas.toDataURL("image/png")\<close> is \<open>data:,\<close>; the pattern
  \<open>/^data:image\/png;base64,/\<close> does not match it, so nothing is stripped and the page
  is stored with \<open>base64 = "data:,"\<close>: a string that carries a data-URL prefix and that
  does not decode as base64.
\<close>

theorem empty_canvas_page_keeps_data_url:
  "convertPdfToImages emptyCanvasGetDocument [] 2 50 =
     Inr [\<lparr>pageNumber = 1, PDFPageImage.base64 = js ''data:,'',
           PDFPageImage.width = 0, PDFPageImage.height = 0\<rparr>]
   \<and> carriesDataUrlPrefix (js ''data:,'')
   \<and> base64ToBytes (js ''data:,'') = Inl InvalidCharacterError"
proof (intro conjI)
  have "renderPages emptyCanvasDocument 2 1 1 [] =
     [\<lparr>pageNumber = 1, PDFPageImage.base64 = js ''data:,'',
       PDFPageImage.width = 0, PDFPageImage.height = 0\<rparr>]"
    by (subst renderPages.simps)
       (simp add: emptyCanvasDocument_def Let_def stored_page_base64 renderPages_done)
  then show "convertPdfToImages emptyCanvasGetDocument [] 2 50 =
     Inr [\<lparr>pageNumber = 1, PDFPageImage.base64 = js ''data:,'',
           PDFPageImage.width = 0, PDFPageImage.height = 0\<rparr>]"
    by (simp add: convertPdfToImages_def emptyCanvasGetDocument_def Let_def
                  emptyCanvasDocument_def)
next
  show "carriesDataUrlPrefix (js ''data:,'')"
    by (simp add: carriesDataUrlPrefix_def js_def)
next
  show "base64ToBytes (js ''data:,'') = Inl InvalidCharacterError"
    by (simp add: base64ToBytes_def atob_def Let_def js_def isAsciiWhitespace_def
                  b64index_def)
qed

section \<open>The batch response\<close>

lemma ends_Star_Class_Nil:
  "ends ic (Star (Class k)) (j, [], cs) = [(j, [], cs)]"
  by (subst ends.simps(8)) simp

lemma ends_Star_Class_Cons:
  "ends ic (Star (Class k)) (j, c # r, cs) =
     (if inClass k c then ends ic (Star (Class k)) (Suc j, r, cs) @ [(j, c # r, cs)]
      else [(j, c # r, cs)])"
  by (subst ends.simps(8)) simp

lemma ends_Star_Class_Seq_Nil:
  "ends ic (Seq (Star (Class k)) X) (j, [], cs) = ends ic X (j, [], cs)"
  by (simp add: ends_Star_Class_Nil)

lemma ends_Star_Class_Seq_Cons:
  "ends ic (Seq (Star (Class k)) X) (j, c # r, cs) =
     (if inClass k c
      then ends ic (Seq (Star (Class k)) X) (Suc j, r, cs) @ ends ic X (j, c # r, cs)
      else ends ic X (j, c # r, cs))"
  by (simp add: ends_Star_Class_Cons)

lemma ends_LazyStar_Any:
  "ends ic (LazyStar (Class AnyChar)) (j, x, cs) =
     map (\<lambda>k. (j + k, drop k x, cs)) [0..<Suc (length x)]"
proof (induction x arbitrary: j)
  case Nil
  show ?case by (subst ends.simps(9)) simp
next
  case (Cons c x)
  have "ends ic (LazyStar (Class AnyChar)) (j, c # x, cs) =
      (j, c # x, cs) # ends ic (LazyStar (Class AnyChar)) (Suc j, x, cs)"
    by (subst ends.simps(9)) simp
  also have "\<dots> = (j, c # x, cs) # map (\<lambda>k. (Suc j + k, drop k x, cs)) [0..<Suc (length x)]"
    by (simp only: Cons.IH)
  also have "\<dots> = map (\<lambda>k. (j + k, drop k (c # x), cs)) (0 # map Suc [0..<Suc (length x)])"
    by (simp add: comp_def)
  also have "0 # map Suc [0..<Suc (length x)] = [0..<Suc (length (c # x))]"
    by (simp only: map_Suc_upt length_Cons upt_conv_Cons [OF zero_less_Suc, symmetric])
  finally show ?case .
qed

lemma ends_Group_lazy:
  "ends False (Seq (Group 1 (LazyStar (Class AnyChar))) t) (j, x, cs) = lazyTries t j [] x cs"
  by (simp add: ends_LazyStar_Any lazyTries_def comp_def)

lemma lazyTries_Nil:
  "lazyTries t j pre [] cs = ends False t (j, [], (1, pre) # cs)"
  by (simp add: lazyTries_def)

lemma lazyTries_Cons:
  "lazyTries t j pre (c # x) cs =
     ends False t (j, c # x, (1, pre) # cs) @ lazyTries t (Suc j) (pre @ [c]) x cs"
proof -
  have "[0..<Suc (length (c # x))] = 0 # map Suc [0..<Suc (length x)]"
    by (simp only: map_Suc_upt length_Cons upt_conv_Cons [OF zero_less_Suc, symmetric])
  then show ?thesis
    unfolding lazyTries_def
    by (simp add: comp_def del: upt_Suc)
qed

lemma charMatches_False: "charMatches False = (=)"
  by (simp add: fun_eq_iff charMatches_def)

lemma length_js [simp]: "length (js w) = length w"
  by (simp add: js_def)

lemma matchesAt_False: "matchesAt False w r \<longleftrightarrow> take (length w) r = w"
proof
  assume "matchesAt False w r"
  then show "take (length w) r = w"
    by (simp add: matchesAt_def charMatches_False list_all2_eq [symmetric])
next
  assume a: "take (length w) r = w"
  then have "length (take (length w) r) = length w" by simp
  then have "length w \<le> length r" by simp
  with a show "matchesAt False w r"
    by (simp add: matchesAt_def charMatches_False list_all2_eq [symmetric])
qed

lemma endMarker_nonempty: "js endMarker \<noteq> []"
  by (simp add: endMarker_def js_def)

lemma endMarker_not_after_space:
  "isWhiteSpace c \<Longrightarrow> take (length (js endMarker)) (c # r) \<noteq> js endMarker"
  by (auto simp: endMarker_def js_def isWhiteSpace_def)

lemma blockTail_Nil:
  "ends False blockTail (j, [], cs) = ends False (lit endMarker) (j, [], cs)"
  unfolding blockTail_def by (rule ends_Star_Class_Seq_Nil)

lemma blockTail_Cons:
  "ends False blockTail (j, c # r, cs) =
     (if isWhiteSpace c
      then ends False blockTail (Suc j, r, cs) @ ends False (lit endMarker) (j, c # r, cs)
      else ends False (lit endMarker) (j, c # r, cs))"
  unfolding blockTail_def by (simp only: ends_Star_Class_Seq_Cons inClass.simps)

lemma ends_blockTail:
  "ends False blockTail (j, r, cs) =
     (if take (length (js endMarker)) (dropWhile isWhiteSpace r) = js endMarker
      then [(j + length (takeWhile isWhiteSpace r) + length (js endMarker),
             drop (length (js endMarker)) (dropWhile isWhiteSpace r), cs)]
      else [])"
proof (induction r arbitrary: j)
  case Nil
  have "[] \<noteq> js endMarker" using endMarker_nonempty by simp
  then show ?case
    by (simp add: blockTail_Nil ends_lit matchesAt_False)
next
  case (Cons c r)
  show ?case
  proof (cases "isWhiteSpace c")
    case True
    then have "ends False (lit endMarker) (j, c # r, cs) = []"
      using endMarker_not_after_space [of c r] by (simp add: ends_lit matchesAt_False)
    with True Cons.IH [of "Suc j"] show ?thesis
      by (simp add: blockTail_Cons)
  next
    case False
    then show ?thesis
      by (simp add: blockTail_Cons ends_lit matchesAt_False)
  qed
qed

lemma findMarker_after_spaces:
  "take (length (js endMarker)) (dropWhile isWhiteSpace x) = js endMarker \<Longrightarrow>
     findMarker (js endMarker) x =
       Some (takeWhile isWhiteSpace x, drop (length (js endMarker)) (dropWhile isWhiteSpace x))"
proof (induction x)
  case Nil
  then show ?case by (simp add: endMarker_def js_def)
next
  case (Cons c x)
  show ?case
  proof (cases "isWhiteSpace c")
    case True
    with Cons show ?thesis
      using endMarker_not_after_space [of c x] by simp
  next
    case False
    with Cons.prems show ?thesis by simp
  qed
qed

lemma dropWhile_is_drop: "dropWhile P x = drop (length (takeWhile P x)) x"
  by (induction x) simp_all

lemma lazy_block_none:
  "findMarker (js endMarker) x = None \<Longrightarrow> lazyTries blockTail j pre x cs = []"
proof (induction x arbitrary: j pre)
  case Nil
  show ?case
    by (simp add: lazyTries_Nil ends_blockTail endMarker_def js_def)
next
  case (Cons c x)
  from Cons.prems have there: "findMarker (js endMarker) x = None"
    by (auto split: if_splits option.splits)
  have "take (length (js endMarker)) (dropWhile isWhiteSpace (c # x)) \<noteq> js endMarker"
    using findMarker_None [OF Cons.prems] by (subst dropWhile_is_drop) blast
  then have "ends False blockTail (j, c # x, (1, pre) # cs) = []"
    by (simp only: ends_blockTail if_False)
  with Cons.IH [OF there] show ?case
    by (simp add: lazyTries_Cons)
qed

lemma lazy_block_some:
  "findMarker (js endMarker) x = Some (body, after) \<Longrightarrow>
     \<exists>cap w rest. lazyTries blockTail j pre x cs =
         (j + length body + length (js endMarker), after, (1, pre @ cap) # cs) # rest
       \<and> body = cap @ w \<and> list_all isWhiteSpace w"
proof (induction x arbitrary: j pre body)
  case Nil
  then show ?case by (simp add: endMarker_def js_def split: if_splits)
next
  case (Cons c x)
  show ?case
  proof (cases "take (length (js endMarker)) (dropWhile isWhiteSpace (c # x)) = js endMarker")
    case True
    from findMarker_after_spaces [OF True] Cons.prems
    have body: "body = takeWhile isWhiteSpace (c # x)"
      and after: "after = drop (length (js endMarker)) (dropWhile isWhiteSpace (c # x))"
      by simp_all
    have "ends False blockTail (j, c # x, (1, pre) # cs) =
        [(j + length body + length (js endMarker), after, (1, pre) # cs)]"
      using True body after by (simp add: ends_blockTail)
    moreover have "list_all isWhiteSpace body"
      unfolding body list_all_iff by (meson set_takeWhileD)
    ultimately show ?thesis
      by (intro exI [of _ "[]"] exI [of _ body]
                exI [of _ "lazyTries blockTail (Suc j) (pre @ [c]) x cs"])
         (simp add: lazyTries_Cons)
  next
    case False
    then have none: "ends False blockTail (j, c # x, (1, pre) # cs) = []"
      by (simp only: ends_blockTail if_False)
    have here: "take (length (js endMarker)) (c # x) \<noteq> js endMarker"
    proof
      assume a: "take (length (js endMarker)) (c # x) = js endMarker"
      then have "c = 45" by (simp add: endMarker_def js_def)
      then have "dropWhile isWhiteSpace (c # x) = c # x" by (simp add: isWhiteSpace_def)
      with a False show False by simp
    qed
    with Cons.prems obtain body' where f: "findMarker (js endMarker) x = Some (body', after)"
      and body: "body = c # body'"
      by (auto split: option.splits)
    from Cons.IH [OF f, of "Suc j" "pre @ [c]"] obtain cap w rest
      where l: "lazyTries blockTail (Suc j) (pre @ [c]) x cs =
          (Suc j + length body' + length (js endMarker), after, (1, (pre @ [c]) @ cap) # cs) # rest"
        and b: "body' = cap @ w" and w: "list_all isWhiteSpace w"
      by blast
    show ?thesis
      using none l b w body
      by (intro exI [of _ "c # cap"] exI [of _ w] exI [of _ rest]) (simp add: lazyTries_Cons)
  qed
qed

lemma batchBlockPattern_parts: "batchBlockPattern = Seq (lit beginMarker) blockRest"
  by (simp add: batchBlockPattern_def blockRest_def blockTail_def)

lemma blockRest_Nil:
  "ends False blockRest (j, [], cs) = lazyTries blockTail j [] [] cs"
  unfolding blockRest_def by (simp only: ends_Star_Class_Seq_Nil ends_Group_lazy)

lemma blockRest_Cons:
  "ends False blockRest (j, c # r, cs) =
     (if isWhiteSpace c
      then ends False blockRest (Suc j, r, cs) @ lazyTries blockTail j [] (c # r) cs
      else lazyTries blockTail j [] (c # r) cs)"
  unfolding blockRest_def
  by (simp only: ends_Star_Class_Seq_Cons inClass.simps ends_Group_lazy)

lemma blockRest_none:
  "findMarker (js endMarker) r = None \<Longrightarrow> ends False blockRest (j, r, cs) = []"
proof (induction r arbitrary: j)
  case Nil
  then show ?case by (simp add: blockRest_Nil lazy_block_none)
next
  case (Cons c r)
  from Cons.prems have "findMarker (js endMarker) r = None"
    by (auto split: if_splits option.splits)
  from Cons.IH [OF this] lazy_block_none [OF Cons.prems] show ?case
    by (simp add: blockRest_Cons)
qed

lemma blockRest_some:
  "findMarker (js endMarker) r = Some (body, after) \<Longrightarrow>
     \<exists>w0 cap w rest. ends False blockRest (j, r, cs) =
         (j + length body + length (js endMarker), after, (1, cap) # cs) # rest
       \<and> body = w0 @ cap @ w \<and> list_all isWhiteSpace w0 \<and> list_all isWhiteSpace w"
proof (induction r arbitrary: j body)
  case Nil
  then show ?case by (simp add: endMarker_def js_def split: if_splits)
next
  case (Cons c r)
  show ?case
  proof (cases "isWhiteSpace c")
    case False
    from lazy_block_some [OF Cons.prems, of j "[]" cs] obtain cap w rest
      where "lazyTries blockTail j [] (c # r) cs =
          (j + length body + length (js endMarker), after, (1, cap) # cs) # rest"
        and "body = cap @ w" and "list_all isWhiteSpace w"
      by auto
    with False show ?thesis
      by (intro exI [of _ "[]"] exI [of _ cap] exI [of _ w] exI [of _ rest])
         (simp add: blockRest_Cons)
  next
    case True
    then have "take (length (js endMarker)) (c # r) \<noteq> js endMarker"
      by (rule endMarker_not_after_space)
    with Cons.prems obtain body' where f: "findMarker (js endMarker) r = Some (body', after)"
      and body: "body = c # body'"
      by (auto split: option.splits)
    from Cons.IH [OF f, of "Suc j"] obtain w0 cap w rest
      where e: "ends False blockRest (Suc j, r, cs) =
          (Suc j + length body' + length (js endMarker), after, (1, cap) # cs) # rest"
        and b: "body' = w0 @ cap @ w" and w0: "list_all isWhiteSpace w0"
        and w: "list_all isWhiteSpace w"
      by blast
    show ?thesis
      using True e b w0 w body
      by (intro exI [of _ "c # w0"] exI [of _ cap] exI [of _ w]
                exI [of _ "rest @ lazyTries blockTail j [] (c # r) cs"])
         (simp add: blockRest_Cons)
  qed
qed

lemma trim_spaces:
  assumes "list_all isWhiteSpace w0" and "list_all isWhiteSpace w"
  shows "trim (w0 @ cap @ w) = trim cap"
proof -
  have front: "dropWhile isWhiteSpace (w0 @ cap @ w) = dropWhile isWhiteSpace (cap @ w)"
    using assms(1) by (intro dropWhile_append2) (simp add: list_all_iff)
  have behind: "dropWhile isWhiteSpace (rev w @ ys) = dropWhile isWhiteSpace ys" for ys
    using assms(2) by (intro dropWhile_append2) (simp add: list_all_iff)
  show ?thesis
  proof (cases "\<forall>c \<in> set cap. isWhiteSpace c")
    case True
    then have "dropWhile isWhiteSpace (cap @ w) = dropWhile isWhiteSpace w"
      by (intro dropWhile_append2) simp
    also have "\<dots> = []"
      using assms(2) by (simp add: list_all_iff)
    finally have "dropWhile isWhiteSpace (cap @ w) = []" .
    with front have all: "dropWhile isWhiteSpace (w0 @ cap @ w) = []" by simp
    from True have cap: "dropWhile isWhiteSpace cap = []" by simp
    show ?thesis unfolding trim_def all cap ..
  next
    case False
    then obtain c where "c \<in> set cap" "\<not> isWhiteSpace c" by blast
    then have "dropWhile isWhiteSpace (cap @ w) = dropWhile isWhiteSpace cap @ w"
      by (rule dropWhile_append1)
    with front have all: "dropWhile isWhiteSpace (w0 @ cap @ w) = dropWhile isWhiteSpace cap @ w"
      by simp
    show ?thesis unfolding trim_def all rev_append behind ..
  qed
qed

lemma block_none:
  assumes "findMarker (js endMarker) (drop (length beginMarker) r) = None"
  shows "ends False batchBlockPattern (i, r, cs) = []"
  using blockRest_none [OF assms]
  by (simp add: batchBlockPattern_parts ends_lit)

lemma block_no_begin:
  assumes "take (length (js beginMarker)) r \<noteq> js beginMarker"
  shows "ends False batchBlockPattern (i, r, cs) = []"
  using assms by (simp add: batchBlockPattern_parts ends_lit matchesAt_False)

lemma block_some:
  assumes "take (length (js beginMarker)) r = js beginMarker"
    and "findMarker (js endMarker) (drop (length beginMarker) r) = Some (body, after)"
  shows "\<exists>cap rest. ends False batchBlockPattern (i, r, cs) =
           (i + length beginMarker + length body + length endMarker, after, (1, cap) # cs) # rest
         \<and> trim cap = trim body"
proof -
  from blockRest_some [OF assms(2), of "i + length beginMarker" cs] obtain w0 cap w rest
    where e: "ends False blockRest (i + length beginMarker, drop (length beginMarker) r, cs) =
        (i + length beginMarker + length body + length (js endMarker), after, (1, cap) # cs) # rest"
      and b: "body = w0 @ cap @ w" and w0: "list_all isWhiteSpace w0"
      and w: "list_all isWhiteSpace w"
    by blast
  from b trim_spaces [OF w0 w, of cap] have "trim cap = trim body" by simp
  moreover from assms(1) have "matchesAt False (js beginMarker) r"
    by (simp add: matchesAt_False)
  ultimately show ?thesis
    using e by (simp add: batchBlockPattern_parts ends_lit)
qed

lemma regexExec_first:
  assumes "k \<le> i0" and "i0 \<le> length s"
    and "\<And>i. k \<le> i \<Longrightarrow> i < i0 \<Longrightarrow> ends ic r (i, drop i s, []) = []"
    and "ends ic r (i0, drop i0 s, []) = (e, rest, cs) # others"
  shows "regexExec ic r s k =
           Some \<lparr>index = i0, matched = take (e - i0) (drop i0 s), endIndex = e, captures = cs\<rparr>"
  using assms(1,3)
proof (induction "i0 - k" arbitrary: k)
  case 0
  then have "k = i0" by simp
  with assms(2,4) show ?case
    by (subst regexExec.simps) simp
next
  case (Suc n)
  then have lt: "k < i0" by simp
  with Suc.prems(2) [of k] have none: "ends ic r (k, drop k s, []) = []" by simp
  have "regexExec ic r s k = regexExec ic r s (Suc k)"
    using lt assms(2) none by (subst regexExec.simps) simp
  also have "\<dots> = Some \<lparr>index = i0, matched = take (e - i0) (drop i0 s), endIndex = e,
                          captures = cs\<rparr>"
  proof (rule Suc.hyps(1))
    show "n = i0 - Suc k" using Suc.hyps(2) by simp
    show "Suc k \<le> i0" using lt by simp
    show "ends ic r (i, drop i s, []) = []" if "Suc k \<le> i" "i < i0" for i
      using that Suc.prems(2) [of i] by simp
  qed
  finally show ?case .
qed

lemma beginMarker_nonempty: "js beginMarker \<noteq> []"
  by (simp add: beginMarker_def js_def)

lemma scanBlocks_none:
  "findMarker (js beginMarker) response = None \<Longrightarrow> scanBlocks response = []"
  by (subst scanBlocks.simps) simp

lemma scanBlocks_open:
  "findMarker (js beginMarker) response = Some (skipped, afterBegin) \<Longrightarrow>
   findMarker (js endMarker) afterBegin = None \<Longrightarrow> scanBlocks response = []"
  by (subst scanBlocks.simps) simp

lemma scanBlocks_block:
  "findMarker (js beginMarker) response = Some (skipped, afterBegin) \<Longrightarrow>
   findMarker (js endMarker) afterBegin = Some (body, afterEnd) \<Longrightarrow>
     scanBlocks response = trim body # scanBlocks afterEnd"
  by (subst scanBlocks.simps) simp

lemma matchAll_scan:
  "map (\<lambda>m. trim (capture m 1)) (regexMatchAll False batchBlockPattern s k) =
     scanBlocks (drop k s)"
proof (induction "Suc (length s) - k" arbitrary: k rule: less_induct)
  case less
  show ?case
  proof (cases "length s < k")
    case True
    then have "regexExec False batchBlockPattern s k = None"
      by (subst regexExec.simps) simp
    then have "regexMatchAll False batchBlockPattern s k = []"
      by (subst regexMatchAll.simps) simp
    moreover from True have "drop k s = []" by simp
    moreover have "findMarker (js beginMarker) [] = None"
      using beginMarker_nonempty by simp
    ultimately show ?thesis by (simp add: scanBlocks_none)
  next
    case False
    then have k: "k \<le> length s" by simp
    show ?thesis
    proof (cases "findMarker (js beginMarker) (drop k s)")
      case None
      have "ends False batchBlockPattern (i, drop i s, []) = []" if "k \<le> i" for i
      proof (rule block_no_begin)
        from that have "drop i s = drop (i - k) (drop k s)" by simp
        with findMarker_None [OF None, of "i - k"]
        show "take (length (js beginMarker)) (drop i s) \<noteq> js beginMarker" by simp
      qed
      then have "regexExec False batchBlockPattern s k = None"
        by (simp add: regexExec_None_iff)
      then have "regexMatchAll False batchBlockPattern s k = []"
        by (subst regexMatchAll.simps) simp
      with None show ?thesis by (simp add: scanBlocks_none)
    next
      case (Some found)
      obtain skipped afterBegin where found: "found = (skipped, afterBegin)" by (cases found)
      with Some have fb: "findMarker (js beginMarker) (drop k s) = Some (skipped, afterBegin)"
        by simp
      from findMarker_split [OF fb]
      have split: "drop k s = skipped @ js beginMarker @ afterBegin" .
      define i0 where "i0 = k + length skipped"
      have at: "drop i0 s = js beginMarker @ afterBegin"
      proof -
        have "drop i0 s = drop (length skipped) (drop k s)"
          by (simp add: i0_def add.commute)
        with split show ?thesis by simp
      qed
      have i0: "i0 \<le> length s"
      proof (rule ccontr)
        assume "\<not> i0 \<le> length s"
        then have "drop i0 s = []" by simp
        with at beginMarker_nonempty show False by simp
      qed
      have before: "ends False batchBlockPattern (i, drop i s, []) = []" if "k \<le> i" "i < i0" for i
      proof (rule block_no_begin)
        from that have "drop i s = drop (i - k) (drop k s)" by simp
        moreover from that have "i - k < length skipped" by (simp add: i0_def)
        ultimately show "take (length (js beginMarker)) (drop i s) \<noteq> js beginMarker"
          using findMarker_first [OF fb, of "i - k"] by simp
      qed
      have rest: "drop (length beginMarker) (drop i0 s) = afterBegin"
        using at by simp
      show ?thesis
      proof (cases "findMarker (js endMarker) afterBegin")
        case None
        have "ends False batchBlockPattern (i, drop i s, []) = []" if "k \<le> i" for i
        proof (cases "i < i0")
          case True
          with that show ?thesis by (rule before)
        next
          case False
          then have "drop (length beginMarker) (drop i s)
              = drop (i - i0) (drop (length beginMarker) (drop i0 s))"
            by (simp add: add.commute)
          also have "\<dots> = drop (i - i0) afterBegin"
            by (simp only: rest)
          finally have "findMarker (js endMarker) (drop (length beginMarker) (drop i s)) = None"
            using findMarker_None_drop [OF None endMarker_nonempty] by simp
          then show ?thesis by (rule block_none)
        qed
        then have "regexExec False batchBlockPattern s k = None"
          by (simp add: regexExec_None_iff)
        then have "regexMatchAll False batchBlockPattern s k = []"
          by (subst regexMatchAll.simps) simp
        with fb None show ?thesis by (simp add: scanBlocks_open)
      next
        case (Some found')
        obtain body afterEnd where "found' = (body, afterEnd)" by (cases found')
        with Some have fe: "findMarker (js endMarker) afterBegin = Some (body, afterEnd)"
          by simp
        from findMarker_split [OF fe]
        have split': "afterBegin = body @ js endMarker @ afterEnd" .
        define e where "e = i0 + length beginMarker + length body + length endMarker"
        have "take (length (js beginMarker)) (drop i0 s) = js beginMarker"
          using at by simp
        from block_some [OF this, of body afterEnd i0 "[]"] fe rest
        obtain cap others
          where ends: "ends False batchBlockPattern (i0, drop i0 s, []) =
              (e, afterEnd, [(1, cap)]) # others"
            and cap: "trim cap = trim body"
          by (auto simp: e_def)
        have k0: "k \<le> i0" by (simp add: i0_def)
        from regexExec_first [OF k0 i0 before ends]
        have exec: "regexExec False batchBlockPattern s k =
            Some \<lparr>index = i0, matched = take (e - i0) (drop i0 s), endIndex = e,
                  captures = [(1, cap)]\<rparr>"
          by simp
        have "0 < length beginMarker" by (simp add: beginMarker_def)
        then have e_gt: "i0 < e" by (simp add: e_def)
        have after: "drop e s = afterEnd"
        proof -
          have "drop e s = drop (length beginMarker + length body + length endMarker) (drop i0 s)"
            by (simp add: e_def add.commute add.left_commute)
          also have "\<dots> = drop (length body + length endMarker) afterBegin"
            using at by (simp add: add.commute)
          also have "\<dots> = afterEnd"
            using split' by simp
          finally show ?thesis .
        qed
        have "regexMatchAll False batchBlockPattern s k =
            \<lparr>index = i0, matched = take (e - i0) (drop i0 s), endIndex = e,
             captures = [(1, cap)]\<rparr> # regexMatchAll False batchBlockPattern s e"
          using exec e_gt by (subst regexMatchAll.simps) simp
        moreover have "map (\<lambda>m. trim (capture m 1)) (regexMatchAll False batchBlockPattern s e)
            = scanBlocks (drop e s)"
        proof (rule less.hyps)
          from k k0 e_gt show "Suc (length s) - e < Suc (length s) - k" by simp
        qed
        ultimately show ?thesis
          using cap after fb fe by (simp add: capture_def scanBlocks_block)
      qed
    qed
  qed
qed

text \<open>
  C3. The blocks that the pattern's \<open>matchAll\<close> finds in a response are those of the
  left-to-right scan: each block starts at the first begin marker at or after the
  place the previous block ended, ends at the first end marker after it, and gives its
  text trimmed, in order of appearance. The content handed to formatting is the array
  of these texts when there are more than one, the single text when there is exactly
  one, and the trimmed response when there is none.
\<close>

theorem batch_content_for_formatting:
  "batchMatches response = scanBlocks response
   \<and> contentForFormatting response =
       (if 1 < length (scanBlocks response) then Many (scanBlocks response)
        else if length (scanBlocks response) = 1 then Single (hd (scanBlocks response))
        else Single (trim response))"
  using matchAll_scan [of response 0]
  by (simp add: batchMatches_def contentForFormatting_def Let_def)

end
